theory Spec2Isabelle
  imports Main "HOL-Library.Word"
begin

section \<open>Data model of core/src/Serializable.hpp\<close>

text \<open>
  \<open>std::size_t\<close> is an unsigned 64-bit integer and \<open>gsl::index\<close> (that is
  \<open>std::ptrdiff_t\<close>) a signed 64-bit integer (LP64). Both are \<open>64 word\<close>; an index is
  read with \<open>sint\<close> where the source compares two indices, and as the unsigned word where
  the usual arithmetic conversions of C++ turn it into a \<open>std::size_t\<close> (every
  expression that mixes it with a \<open>std::size_t\<close>). Signed overflow is undefined in C++;
  the model wraps, as the hardware does.
\<close>

type_synonym size_t = "64 word"
type_synonym index = "64 word"

text \<open>A \<open>bool*\<close>: the null pointer, or the address of a byte.\<close>

datatype ptr = nullptr | Ptr nat

text \<open>
  The three locals of a \<open>pGetBlock\<close> body that every register method receives by
  reference: \<open>rBlockSize\<close>, \<open>rCurrentBlockIndex\<close> (the registration cursor) and
  \<open>rpData\<close>.
\<close>

record reg_state =
  rBlockSize :: size_t
  rCurrentBlockIndex :: index
  rpData :: ptr

text \<open>
  The abstract class \<open>Serializable\<close>: three pure virtual member functions.
  \<open>pGetBlock\<close> receives the block index, the value \<open>rBlockSize\<close> holds on entry and
  \<open>isLoad\<close>, and returns the pointer together with the value of \<open>rBlockSize\<close> on
  exit. The register methods take the nested object as \<open>const DataType&\<close>, so the
  \<open>pGetBlock\<close> they call cannot change the nested object: it is a function.
\<close>

record entity =
  pGetBlock :: "index \<Rightarrow> size_t \<Rightarrow> bool \<Rightarrow> ptr \<times> size_t"
  GetNumBlock :: size_t
  GetSerializableSize :: size_t

text \<open>
  What C++ leaves undefined in \<open>RegisterConstSizeSerializables\<close>: indexing \<open>rData\<close>
  past its last element, and \<open>/\<close> or \<open>%\<close> by zero.
\<close>

datatype fault = IndexOutOfRange | DivisionByZero

section \<open>The accumulation functors\<close>

definition SumNumBlock :: "size_t \<Rightarrow> entity \<Rightarrow> size_t" where
  "SumNumBlock acc rSerializable = acc + GetNumBlock rSerializable"

definition SumSerializableSize :: "size_t \<Rightarrow> entity \<Rightarrow> size_t" where
  "SumSerializableSize acc rSerializable = acc + GetSerializableSize rSerializable"

text \<open>\<open>std::accumulate(first, last, init, op)\<close>: a left fold.\<close>

definition accumulate :: "'a list \<Rightarrow> 'b \<Rightarrow> ('b \<Rightarrow> 'a \<Rightarrow> 'b) \<Rightarrow> 'b" where
  "accumulate v init op = foldl op init v"

section \<open>The register methods\<close>

text \<open>
  \<open>RegisterVar\<close>: \<open>rData\<close> is the address of the datum, \<open>sizeof_DataType\<close> the value
  of \<open>sizeof(DataType)\<close> for the template's type and \<open>len\<close> the parameter \<open>length\<close>.
\<close>

definition RegisterVar ::
  "index \<Rightarrow> reg_state \<Rightarrow> nat \<Rightarrow> size_t \<Rightarrow> size_t \<Rightarrow> reg_state" where
  "RegisterVar blockIndex st rData sizeof_DataType len =
     (let st1 = (if blockIndex = rCurrentBlockIndex st
                 then st\<lparr>rBlockSize := sizeof_DataType * len, rpData := Ptr rData\<rparr>
                 else st)
      in st1\<lparr>rCurrentBlockIndex := rCurrentBlockIndex st1 + 1\<rparr>)"

text \<open>
  The range test of both object methods. \<open>blockIndex >= rCurrentBlockIndex\<close> compares two
  \<open>gsl::index\<close> values, signed; in \<open>blockIndex < rCurrentBlockIndex + count\<close> the count
  is a \<open>std::size_t\<close>, so the sum and the comparison are unsigned.
\<close>

definition in_block_range :: "index \<Rightarrow> index \<Rightarrow> size_t \<Rightarrow> bool" where
  "in_block_range blockIndex cursor count \<longleftrightarrow>
     sint cursor \<le> sint blockIndex \<and> blockIndex < cursor + count"

definition RegisterConstSizeSerializable ::
  "index \<Rightarrow> reg_state \<Rightarrow> entity \<Rightarrow> bool \<Rightarrow> reg_state" where
  "RegisterConstSizeSerializable blockIndex st rData isLoad =
     (let st1 = (if in_block_range blockIndex (rCurrentBlockIndex st) (GetNumBlock rData)
                 then (case pGetBlock rData (blockIndex - rCurrentBlockIndex st)
                              (rBlockSize st) isLoad of
                         (p, bs) \<Rightarrow> st\<lparr>rBlockSize := bs, rpData := p\<rparr>)
                 else st)
      in st1\<lparr>rCurrentBlockIndex := rCurrentBlockIndex st1 + GetNumBlock rData\<rparr>)"

text \<open>
  Modelled from the spec: line 301 of the source reads the divisor \<open>num_block\<close> from a
  member function of the first element spelled \<open>GetNumblock\<close>, which no file of the
  repository declares (the class declares \<open>GetNumBlock\<close>). The spec calls the divisor
  "the per-element block count", which is what \<open>GetNumBlock\<close> returns.
\<close>

definition GetNumblock :: "entity \<Rightarrow> size_t" where
  "GetNumblock rSerializable = GetNumBlock rSerializable"

text \<open>
  \<open>RegisterConstSizeSerializables\<close>: \<open>rData\<close> is the array and \<open>len\<close> the parameter
  \<open>length\<close>, the number of elements the caller announces. \<open>rData[i]\<close> is \<open>rData ! i\<close>
  when the array has an element \<open>i\<close>, and a fault otherwise.
\<close>

definition RegisterConstSizeSerializables ::
  "index \<Rightarrow> reg_state \<Rightarrow> entity list \<Rightarrow> size_t \<Rightarrow> bool \<Rightarrow> fault + reg_state" where
  "RegisterConstSizeSerializables blockIndex st rData len isLoad =
     (if 0 < len then
        (case rData of
           [] \<Rightarrow> Inl IndexOutOfRange
         | first # _ \<Rightarrow>
             if in_block_range blockIndex (rCurrentBlockIndex st)
                  (len * GetNumBlock first)
             then
               (let local_block_idx = blockIndex - rCurrentBlockIndex st;
                    num_block = GetNumblock first
                in if num_block = 0 then Inl DivisionByZero
                   else if List.length rData \<le> unat (local_block_idx div num_block)
                   then Inl IndexOutOfRange
                   else
                     (case pGetBlock (rData ! unat (local_block_idx div num_block))
                             (local_block_idx mod num_block) (rBlockSize st) isLoad of
                        (p, bs) \<Rightarrow>
                          Inr (st\<lparr>rBlockSize := bs, rpData := p,
                                  rCurrentBlockIndex :=
                                    rCurrentBlockIndex st + len * GetNumBlock first\<rparr>)))
             else Inr (st\<lparr>rCurrentBlockIndex :=
                             rCurrentBlockIndex st + len * GetNumBlock first\<rparr>))
      else Inr st)"

section \<open>A \<open>pGetBlock\<close> body assembled from register methods\<close>

text \<open>
  The source prescribes the shape of every \<open>pGetBlock\<close> body (lines 101 to 106):
  \<^verbatim>\<open>std::size_t current_block = 0; bool* p_data = nullptr;\<close>, then the register methods
  in a fixed order, then \<^verbatim>\<open>return p_data;\<close>. \<open>fresh_state\<close> is the state of the three
  locals before the first register method; \<open>bs\<close> is what \<open>rBlockSize\<close> holds when the
  caller passes it in.
\<close>

definition fresh_state :: "size_t \<Rightarrow> reg_state" where
  "fresh_state bs = \<lparr>rBlockSize = bs, rCurrentBlockIndex = 0, rpData = nullptr\<rparr>"

text \<open>
  One register call of such a body: \<open>Var\<close> is a call of \<open>RegisterVar\<close> (address,
  \<open>sizeof(DataType)\<close>, \<open>length\<close>), \<open>Object\<close> a call of
  \<open>RegisterConstSizeSerializable\<close>, \<open>Objects\<close> a call of
  \<open>RegisterConstSizeSerializables\<close> (array, \<open>length\<close>).
\<close>

datatype member = Var nat size_t size_t | Object entity | Objects "entity list" size_t

fun register :: "index \<Rightarrow> bool \<Rightarrow> reg_state \<Rightarrow> member \<Rightarrow> fault + reg_state" where
  "register blockIndex isLoad st (Var rData sizeof_DataType len) =
     Inr (RegisterVar blockIndex st rData sizeof_DataType len)"
| "register blockIndex isLoad st (Object rData) =
     Inr (RegisterConstSizeSerializable blockIndex st rData isLoad)"
| "register blockIndex isLoad st (Objects rData len) =
     RegisterConstSizeSerializables blockIndex st rData len isLoad"

text \<open>The register calls of a body, one after the other; a fault ends the run.\<close>

fun register_all :: "index \<Rightarrow> bool \<Rightarrow> reg_state \<Rightarrow> member list \<Rightarrow> fault + reg_state" where
  "register_all blockIndex isLoad st [] = Inr st"
| "register_all blockIndex isLoad st (m # ms) =
     (case register blockIndex isLoad st m of
        Inl f \<Rightarrow> Inl f
      | Inr st' \<Rightarrow> register_all blockIndex isLoad st' ms)"

definition GetBlock :: "member list \<Rightarrow> index \<Rightarrow> size_t \<Rightarrow> bool \<Rightarrow> fault + ptr \<times> size_t" where
  "GetBlock ms blockIndex bs isLoad =
     (case register_all blockIndex isLoad (fresh_state bs) ms of
        Inl f \<Rightarrow> Inl f
      | Inr st \<Rightarrow> Inr (rpData st, rBlockSize st))"

section \<open>Example entities\<close>

text \<open>
  A constant-size entity with two 4-byte scalars at the addresses \<open>a\<close> and \<open>b\<close>, written
  the way the source asks a subclass to write its three member functions.
\<close>

definition two_scalars :: "nat \<Rightarrow> nat \<Rightarrow> entity" where
  "two_scalars a b =
     \<lparr>pGetBlock = (\<lambda>blockIndex bs isLoad.
         let st = fresh_state bs;
             st = RegisterVar blockIndex st a 4 1;
             st = RegisterVar blockIndex st b 4 1
         in (rpData st, rBlockSize st)),
      GetNumBlock = 2,
      GetSerializableSize = 8\<rparr>"

section \<open>The flat index space of a body\<close>

text \<open>
  The spec's reading of a body, to compare the register methods with: the blocks of the
  members are concatenated, in registration order, into one index space.
  \<open>member_count\<close> is the number of indices a member takes, \<open>member_block\<close> its block at
  a local index, and \<open>flat_block ms j d\<close> the block at index \<open>j\<close> of the concatenation,
  \<open>d\<close> (the pointer and size before the first register call) when \<open>j\<close> is past the end.
\<close>

fun member_count :: "member \<Rightarrow> nat" where
  "member_count (Var rData sizeof_DataType len) = 1"
| "member_count (Object rData) = unat (GetNumBlock rData)"
| "member_count (Objects rData len) =
     (case rData of [] \<Rightarrow> 0 | first # _ \<Rightarrow> unat len * unat (GetNumBlock first))"

fun member_block :: "member \<Rightarrow> nat \<Rightarrow> size_t \<Rightarrow> bool \<Rightarrow> ptr \<times> size_t" where
  "member_block (Var rData sizeof_DataType len) j bs isLoad = (Ptr rData, sizeof_DataType * len)"
| "member_block (Object rData) j bs isLoad = pGetBlock rData (of_nat j) bs isLoad"
| "member_block (Objects rData len) j bs isLoad =
     (case rData of
        [] \<Rightarrow> (nullptr, bs)
      | first # _ \<Rightarrow>
          pGetBlock (rData ! (j div unat (GetNumBlock first)))
            (of_nat (j mod unat (GetNumBlock first))) bs isLoad)"

fun flat_block :: "member list \<Rightarrow> nat \<Rightarrow> ptr \<times> size_t \<Rightarrow> bool \<Rightarrow> ptr \<times> size_t" where
  "flat_block [] j d isLoad = d"
| "flat_block (m # ms) j d isLoad =
     (if j < member_count m then member_block m j (snd d) isLoad
      else flat_block ms (j - member_count m) d isLoad)"

definition blocks_total :: "member list \<Rightarrow> nat" where
  "blocks_total ms = sum_list (map member_count ms)"

text \<open>An array member has at least the \<open>length\<close> elements its register call announces.\<close>

fun array_fits :: "member \<Rightarrow> bool" where
  "array_fits (Objects rData len) \<longleftrightarrow> unat len \<le> length rData"
| "array_fits _ \<longleftrightarrow> True"

text \<open>The state \<open>st\<close> with the cursor and the pair of pointer and size replaced.\<close>

definition outcome :: "reg_state \<Rightarrow> index \<Rightarrow> ptr \<times> size_t \<Rightarrow> reg_state" where
  "outcome st cursor r = st\<lparr>rBlockSize := snd r, rpData := fst r, rCurrentBlockIndex := cursor\<rparr>"

section \<open>The contract between the three member functions\<close>

text \<open>
  Block \<open>j\<close> of an entity as a driver sees it: the pointer and the size \<open>pGetBlock\<close>
  returns for index \<open>j\<close> (called with \<open>rBlockSize = 0\<close>).
\<close>

definition block_ptr :: "bool \<Rightarrow> entity \<Rightarrow> nat \<Rightarrow> ptr" where
  "block_ptr isLoad e j = fst (pGetBlock e (of_nat j) 0 isLoad)"

definition block_size :: "bool \<Rightarrow> entity \<Rightarrow> nat \<Rightarrow> nat" where
  "block_size isLoad e j = unat (snd (pGetBlock e (of_nat j) 0 isLoad))"

definition block_addr :: "bool \<Rightarrow> entity \<Rightarrow> nat \<Rightarrow> nat" where
  "block_addr isLoad e j = (case block_ptr isLoad e j of Ptr a \<Rightarrow> a | nullptr \<Rightarrow> 0)"

text \<open>
  \<open>enumerates isLoad e n\<close>: an enumeration from index 0 finds exactly \<open>n\<close> blocks and
  then the sentinel: every index below \<open>n\<close> gives a block (a non-null pointer, and the
  same pointer and size whatever \<open>rBlockSize\<close> held before the call), and index \<open>n\<close>
  gives the null pointer. \<open>n\<close> is an index a \<open>gsl::index\<close> can hold.
\<close>

definition enumerates :: "bool \<Rightarrow> entity \<Rightarrow> nat \<Rightarrow> bool" where
  "enumerates isLoad e n \<longleftrightarrow>
     n < 2 ^ 63 \<and>
     (\<forall>j < n. \<forall>bs.
        pGetBlock e (of_nat j) bs isLoad = pGetBlock e (of_nat j) 0 isLoad \<and>
        block_ptr isLoad e j \<noteq> nullptr) \<and>
     (\<forall>bs. fst (pGetBlock e (of_nat n) bs isLoad) = nullptr)"

text \<open>
  Size consistency as the spec words it: the enumeration ends at \<open>GetNumBlock\<close>, and
  \<open>GetSerializableSize\<close> is the sum of the block sizes below it.
\<close>

definition enumerable :: "bool \<Rightarrow> entity \<Rightarrow> bool" where
  "enumerable isLoad e \<longleftrightarrow> enumerates isLoad e (unat (GetNumBlock e))"

definition size_consistent :: "bool \<Rightarrow> entity \<Rightarrow> bool" where
  "size_consistent isLoad e \<longleftrightarrow>
     enumerable isLoad e \<and>
     unat (GetSerializableSize e) = (\<Sum>j < unat (GetNumBlock e). block_size isLoad e j)"

text \<open>
  The entity a subclass obtains when it writes its member functions from a list of
  members as the source tells it to: \<open>pGetBlock\<close> is the body \<open>GetBlock\<close>;
  \<open>GetNumBlock\<close> and \<open>GetSerializableSize\<close> add up what the members occupy, as the
  class comment of the source lists it (lines 57 to 63: one block of
  \<open>length * sizeof(DataType)\<close> bytes for \<open>RegisterVar\<close>, \<open>GetNumBlock\<close> of the object
  for \<open>RegisterConstSizeSerializable\<close>) and, for an array, with \<open>std::accumulate\<close> and
  the two functors over its first \<open>length\<close> elements (lines 18 to 20). Under the
  conditions of the theorems below \<open>GetBlock\<close> never faults, so the null pointer that
  stands for a fault here is never returned for one.
\<close>

fun member_GetNumBlock :: "member \<Rightarrow> size_t" where
  "member_GetNumBlock (Var rData sizeof_DataType len) = 1"
| "member_GetNumBlock (Object rData) = GetNumBlock rData"
| "member_GetNumBlock (Objects rData len) = accumulate (take (unat len) rData) 0 SumNumBlock"

fun member_GetSerializableSize :: "member \<Rightarrow> size_t" where
  "member_GetSerializableSize (Var rData sizeof_DataType len) = sizeof_DataType * len"
| "member_GetSerializableSize (Object rData) = GetSerializableSize rData"
| "member_GetSerializableSize (Objects rData len) =
     accumulate (take (unat len) rData) 0 SumSerializableSize"

definition assembled :: "member list \<Rightarrow> entity" where
  "assembled ms =
     \<lparr>pGetBlock = (\<lambda>blockIndex bs isLoad.
         case GetBlock ms blockIndex bs isLoad of Inr r \<Rightarrow> r | Inl f \<Rightarrow> (nullptr, bs)),
      GetNumBlock = accumulate ms 0 (\<lambda>acc m. acc + member_GetNumBlock m),
      GetSerializableSize = accumulate ms 0 (\<lambda>acc m. acc + member_GetSerializableSize m)\<rparr>"

text \<open>The bytes the members hold, as natural numbers.\<close>

fun member_bytes :: "member \<Rightarrow> nat" where
  "member_bytes (Var rData sizeof_DataType len) = unat (sizeof_DataType * len)"
| "member_bytes (Object rData) = unat (GetSerializableSize rData)"
| "member_bytes (Objects rData len) =
     sum_list (map (\<lambda>e. unat (GetSerializableSize e)) (take (unat len) rData))"

definition bytes_total :: "member list \<Rightarrow> nat" where
  "bytes_total ms = sum_list (map member_bytes ms)"

text \<open>
  What the theorem on assembled entities asks of a member: a nested entity is itself
  size consistent; an array has at least \<open>length\<close> elements, each of them size
  consistent and with the block count of the first.
\<close>

fun member_ok :: "bool \<Rightarrow> member \<Rightarrow> bool" where
  "member_ok isLoad (Var rData sizeof_DataType len) \<longleftrightarrow> True"
| "member_ok isLoad (Object rData) \<longleftrightarrow> size_consistent isLoad rData"
| "member_ok isLoad (Objects rData len) \<longleftrightarrow>
     unat len \<le> length rData \<and>
     (\<forall>e \<in> set (take (unat len) rData).
        size_consistent isLoad e \<and> GetNumBlock e = GetNumBlock (hd rData))"

text \<open>
  A subclass with the block accessor of \<open>two_scalars\<close> whose \<open>GetNumBlock\<close> and
  \<open>GetSerializableSize\<close> return other numbers than the accessor delivers.
\<close>

definition miscounted :: entity where
  "miscounted = (two_scalars 0 4)\<lparr>GetNumBlock := 3, GetSerializableSize := 4\<rparr>"

section \<open>Save and Load\<close>

text \<open>
  Memory is a map from addresses to bytes; a file is its list of bytes.
\<close>

type_synonym byte = "8 word"
type_synonym memory = "nat \<Rightarrow> byte"

definition read_bytes :: "memory \<Rightarrow> nat \<Rightarrow> nat \<Rightarrow> byte list" where
  "read_bytes mem a n = map mem [a..<a + n]"

definition write_bytes :: "memory \<Rightarrow> nat \<Rightarrow> byte list \<Rightarrow> memory" where
  "write_bytes mem a bytes =
     (\<lambda>x. if a \<le> x \<and> x < a + length bytes then bytes ! (x - a) else mem x)"

datatype io_error = FileNotFound | ShortRead

text \<open>
  Modelled from the spec: \<open>Serializable::Save\<close> is declared on line 123 of the source
  and defined in no file of the repository. The spec (section 4.3) gives the driver as a
  scan: the index starts at 0; each step calls the block accessor in save mode; on the
  sentinel the scan is done; otherwise \<open>blockSize\<close> bytes are read from the returned
  address and appended to the output, and the index is incremented. The file is "the raw
  concatenation of every block's bytes in ascending index order". The directory and the
  file name belong to the file-system collaborator and are left out; the result is the
  content of the file, and \<open>None\<close> when the scan never meets a sentinel. The block
  accessor of a constant-size entity does not change the object, so the entity is the
  same in every step.
\<close>

partial_function (option) save_scan ::
  "entity \<Rightarrow> memory \<Rightarrow> index \<Rightarrow> size_t \<Rightarrow> byte list \<Rightarrow> byte list option" where
  "save_scan e mem blockIndex bs out =
     (case pGetBlock e blockIndex bs False of
        (nullptr, bs') \<Rightarrow> Some out
      | (Ptr a, bs') \<Rightarrow>
          save_scan e mem (blockIndex + 1) bs' (out @ read_bytes mem a (unat bs')))"

declare save_scan.simps [code]

text \<open>
  Modelled from the spec: \<open>Save\<close> is the scan from index 0 with no output yet. The
  block-size variable of the driver, passed by reference to every call, starts at 0.
\<close>

definition Save :: "entity \<Rightarrow> memory \<Rightarrow> byte list option" where
  "Save e mem = save_scan e mem 0 0 []"

text \<open>
  Modelled from the spec: \<open>Serializable::Load\<close> is declared on line 129 of the source
  and defined in no file of the repository. The spec (sections 4.1, 4.3 and 7): Load
  fails when the file does not exist; otherwise it scans as Save does, in load mode,
  reading \<open>blockSize\<close> bytes from the input into the returned address; a file that is too
  short is "surfaced as a failure at the point the discrepancy is detected (short read),
  not validated up front"; failures go to the caller, without retry. The file is
  \<open>None\<close> when it does not exist. The result is \<open>None\<close> when the scan never ends,
  otherwise the error or the memory after the load.
\<close>

partial_function (option) load_scan ::
  "entity \<Rightarrow> index \<Rightarrow> size_t \<Rightarrow> byte list \<Rightarrow> memory \<Rightarrow> (io_error + memory) option" where
  "load_scan e blockIndex bs input mem =
     (case pGetBlock e blockIndex bs True of
        (nullptr, bs') \<Rightarrow> Some (Inr mem)
      | (Ptr a, bs') \<Rightarrow>
          if length input < unat bs' then Some (Inl ShortRead)
          else load_scan e (blockIndex + 1) bs' (drop (unat bs') input)
                 (write_bytes mem a (take (unat bs') input)))"

declare load_scan.simps [code]

text \<open>
  Modelled from the spec: \<open>Load\<close> fails at once when the file does not exist, and is
  the scan from index 0 over the bytes of the file otherwise.
\<close>

definition Load ::
  "entity \<Rightarrow> byte list option \<Rightarrow> memory \<Rightarrow> (io_error + memory) option" where
  "Load e file mem =
     (case file of
        None \<Rightarrow> Some (Inl FileNotFound)
      | Some input \<Rightarrow> load_scan e 0 0 input mem)"

text \<open>
  The in-memory state of registered field \<open>j\<close>: the bytes of block \<open>j\<close>.
\<close>

definition block_bytes :: "bool \<Rightarrow> entity \<Rightarrow> memory \<Rightarrow> nat \<Rightarrow> byte list" where
  "block_bytes isLoad e mem j = read_bytes mem (block_addr isLoad e j) (block_size isLoad e j)"

text \<open>
  Identical structural configuration of the saved entity \<open>e\<close> and the entity \<open>e'\<close> that
  is loaded: both enumerate \<open>n\<close> blocks, block by block of the same size
  (\<open>same_shape\<close>), and two bytes of blocks of \<open>e'\<close> are the same byte of memory only
  where the corresponding bytes of \<open>e\<close> are (\<open>mirrors_aliasing\<close>; it holds when the
  blocks of \<open>e'\<close> do not overlap, and when \<open>e'\<close> is laid out as \<open>e\<close> is).
\<close>

definition same_shape :: "entity \<Rightarrow> entity \<Rightarrow> nat \<Rightarrow> bool" where
  "same_shape e e' n \<longleftrightarrow>
     enumerates False e n \<and> enumerates True e' n \<and>
     (\<forall>j < n. block_size True e' j = block_size False e j)"

definition mirrors_aliasing :: "entity \<Rightarrow> entity \<Rightarrow> nat \<Rightarrow> bool" where
  "mirrors_aliasing e e' n \<longleftrightarrow>
     (\<forall>i < n. \<forall>j < n.
        \<forall>oi < block_size False e i. \<forall>oj < block_size False e j.
          block_addr True e' i + oi = block_addr True e' j + oj \<longrightarrow>
          block_addr False e i + oi = block_addr False e j + oj)"

text \<open>Memories for the examples.\<close>

definition zero_memory :: memory where
  "zero_memory = (\<lambda>x. 0)"

definition sample_memory :: memory where
  "sample_memory = write_bytes zero_memory 0 [1, 0, 0, 0, 2, 0, 0, 0]"

section \<open>Signed and unsigned readings of a 64-bit word\<close>

lemma sint_64:
  fixes w :: "64 word"
  shows "sint w = (if uint w < 2 ^ 63 then uint w else uint w - 2 ^ 64)"
proof -
  define u where "u = uint w"
  have b: "u < 2 ^ 64" "0 \<le> u" using uint_lt2p [of w] by (simp_all add: u_def)
  have "sint w = (u + 2 ^ 63) mod 2 ^ 64 - 2 ^ 63"
    using int_word_sint [of "uint w", where 'a = 64] unfolding u_def by simp
  moreover have "u < 2 ^ 63 \<Longrightarrow> (u + 2 ^ 63) mod 2 ^ 64 = u + 2 ^ 63"
    using b by (simp add: mod_pos_pos_trivial)
  moreover have "\<not> u < 2 ^ 63 \<Longrightarrow> (u + 2 ^ 63) mod 2 ^ 64 = u + 2 ^ 63 - 2 ^ 64"
  proof -
    assume a: "\<not> u < 2 ^ 63"
    have "(u + 2 ^ 63) mod 2 ^ 64 = (u + 2 ^ 63 - 2 ^ 64) mod 2 ^ 64"
      by (metis mod_diff_right_eq mod_self diff_zero)
    also have "\<dots> = u + 2 ^ 63 - 2 ^ 64"
      using a b by (simp add: mod_pos_pos_trivial)
    finally show ?thesis .
  qed
  ultimately show ?thesis unfolding u_def by auto
qed

lemma uint_lt_unat:
  fixes w :: "64 word"
  shows "uint w < 2 ^ 63 \<longleftrightarrow> unat w < 2 ^ 63"
proof -
  have "unat w = nat (uint w)" by simp
  then show ?thesis by (simp only: nat_less_numeral_power_cancel_iff)
qed

lemma in_block_range_nat:
  assumes "unat c + unat n < 2 ^ 63"
  shows "in_block_range i c n \<longleftrightarrow> unat c \<le> unat i \<and> unat i < unat c + unat n"
proof -
  have "unat c < 2 ^ 63" using assms by linarith
  then have c: "uint c < 2 ^ 63" unfolding uint_lt_unat .
  have s: "unat (c + n) = unat c + unat n"
    using assms by (simp add: unat_word_ariths)
  have l: "unat c \<le> unat i \<longleftrightarrow> uint c \<le> uint i"
    by (simp add: word_le_nat_alt [symmetric] word_le_def)
  show ?thesis
  proof (cases "uint i < 2 ^ 63")
    case True
    then have "sint c \<le> sint i \<longleftrightarrow> uint c \<le> uint i"
      unfolding sint_64 using c by simp
    then show ?thesis
      unfolding in_block_range_def word_less_nat_alt s l by simp
  next
    case False
    then have "\<not> unat i < 2 ^ 63" unfolding uint_lt_unat .
    then have r: "\<not> unat i < unat c + unat n" using assms by simp
    have "sint i < 0"
      unfolding sint_64 using False uint_lt2p [of i] by simp
    moreover have "0 \<le> sint c"
      unfolding sint_64 using c by simp
    ultimately have "\<not> sint c \<le> sint i" by linarith
    then show ?thesis
      unfolding in_block_range_def using r by simp
  qed
qed

lemma sint_succ_64:
  fixes c :: "64 word"
  assumes "sint c < 2 ^ 63 - 1"
  shows "sint (c + 1) = sint c + 1"
proof -
  have u: "uint (c + 1) = (uint c + 1) mod 2 ^ 64"
    by (simp add: uint_word_ariths)
  have b: "0 \<le> uint c" "uint c < 2 ^ 64" using uint_lt2p [of c] by simp_all
  show ?thesis
  proof (cases "uint c < 2 ^ 63")
    case True
    with assms have "uint c < 2 ^ 63 - 1" unfolding sint_64 by simp
    then have "uint (c + 1) = uint c + 1" unfolding u using b by (simp add: mod_pos_pos_trivial)
    then show ?thesis unfolding sint_64 using True \<open>uint c < 2 ^ 63 - 1\<close> by simp
  next
    case False
    show ?thesis
    proof (cases "uint c = 2 ^ 64 - 1")
      case True
      then have "c = - 1"
        by (simp add: word_uint_eq_iff unsigned_minus_1_eq_mask mask_eq_exp_minus_1)
      then show ?thesis by simp
    next
      case n: False
      then have "uint c + 1 < 2 ^ 64" using b by simp
      then have "uint (c + 1) = uint c + 1" unfolding u using b by (simp add: mod_pos_pos_trivial)
      then show ?thesis unfolding sint_64 using False by simp
    qed
  qed
qed

lemma unat_mult_no_overflow:
  fixes a b :: "64 word"
  assumes "unat a * unat b < 2 ^ 64"
  shows "unat (a * b) = unat a * unat b"
  using assms by (simp add: unat_word_ariths)

lemma foldl_SumNumBlock:
  "foldl SumNumBlock a es = a + sum_list (map GetNumBlock es)"
  by (induction es arbitrary: a) (simp_all add: SumNumBlock_def add.assoc)

lemma foldl_SumSerializableSize:
  "foldl SumSerializableSize a es = a + sum_list (map GetSerializableSize es)"
  by (induction es arbitrary: a) (simp_all add: SumSerializableSize_def add.assoc)

lemma unat_sum_list_no_overflow:
  fixes ws :: "64 word list"
  assumes "sum_list (map unat ws) < 2 ^ 64"
  shows "unat (sum_list ws) = sum_list (map unat ws)"
  using assms
proof (induction ws)
  case Nil
  then show ?case by simp
next
  case (Cons w ws)
  then have "unat (sum_list ws) = sum_list (map unat ws)" by simp
  with Cons.prems show ?case by (simp add: unat_word_ariths)
qed

lemma two_scalars_block:
  "pGetBlock (two_scalars a b) i bs l =
     (if i = 0 then (Ptr a, 4) else if i = 1 then (Ptr b, 4) else (nullptr, bs))"
  by (simp add: two_scalars_def fresh_state_def RegisterVar_def Let_def)

lemma RegisterConstSizeSerializables_empty:
  "RegisterConstSizeSerializables i st rData 0 isLoad = Inr st"
  by (simp add: RegisterConstSizeSerializables_def)

lemma register_all_append:
  "register_all i l st (ms1 @ ms2) =
     (case register_all i l st ms1 of Inl f \<Rightarrow> Inl f | Inr st' \<Rightarrow> register_all i l st' ms2)"
  by (induction ms1 arbitrary: st) (simp_all split: sum.splits)

lemma two_scalars_count: "GetNumBlock (two_scalars a b) = 2"
  by (simp add: two_scalars_def)

section \<open>The register methods on natural numbers\<close>

lemma RegisterConstSizeSerializables_nat:
  assumes len: "0 < len"
    and rData: "rData = first # rest"
    and enough: "unat len \<le> length rData"
    and fits: "unat (rCurrentBlockIndex st) + unat len * unat (GetNumBlock first) < 2 ^ 63"
  shows "RegisterConstSizeSerializables i st rData len l =
     Inr (if unat (rCurrentBlockIndex st) \<le> unat i \<and>
             unat i < unat (rCurrentBlockIndex st) + unat len * unat (GetNumBlock first)
          then (case pGetBlock
                       (rData ! ((unat i - unat (rCurrentBlockIndex st)) div unat (GetNumBlock first)))
                       (of_nat ((unat i - unat (rCurrentBlockIndex st)) mod unat (GetNumBlock first)))
                       (rBlockSize st) l of
                  (p, bs) \<Rightarrow>
                    st\<lparr>rBlockSize := bs, rpData := p,
                       rCurrentBlockIndex := rCurrentBlockIndex st + len * GetNumBlock first\<rparr>)
          else st\<lparr>rCurrentBlockIndex := rCurrentBlockIndex st + len * GetNumBlock first\<rparr>)"
proof -
  let ?c = "rCurrentBlockIndex st"
  let ?k = "GetNumBlock first"
  have prod: "unat (len * ?k) = unat len * unat ?k"
    using fits by (intro unat_mult_no_overflow) simp
  have "unat ?c + unat (len * ?k) < 2 ^ 63"
    using fits by (simp only: prod)
  from in_block_range_nat [OF this]
  have range: "in_block_range i ?c (len * ?k) \<longleftrightarrow>
      unat ?c \<le> unat i \<and> unat i < unat ?c + unat len * unat ?k"
    unfolding prod .
  show ?thesis
  proof (cases "unat ?c \<le> unat i \<and> unat i < unat ?c + unat len * unat ?k")
    case False
    then have "\<not> in_block_range i ?c (len * ?k)" using range by blast
    then have "RegisterConstSizeSerializables i st rData len l =
        Inr (st\<lparr>rCurrentBlockIndex := ?c + len * ?k\<rparr>)"
      using len by (simp add: RegisterConstSizeSerializables_def rData)
    then show ?thesis using False by (simp only: if_False)
  next
    case True
    then have k0: "?k \<noteq> 0" by (auto simp: unat_eq_0 intro!: notI)
    then have kpos: "0 < unat ?k" by (simp add: unat_gt_0)
    have ci: "?c \<le> i" using True by (simp add: word_le_nat_alt)
    have sub: "unat (i - ?c) = unat i - unat ?c" using ci by (simp add: unat_sub)
    have d: "unat ((i - ?c) div ?k) = (unat i - unat ?c) div unat ?k"
      by (simp add: unat_div sub)
    have m: "(i - ?c) mod ?k = of_nat ((unat i - unat ?c) mod unat ?k)"
      unfolding sub [symmetric] by (rule word_arith_nat_mod)
    have "unat i - unat ?c < unat len * unat ?k" using True by linarith
    then have "(unat i - unat ?c) div unat ?k < unat len"
      using kpos by (simp add: less_mult_imp_div_less)
    then have inb: "\<not> length rData \<le> (unat i - unat ?c) div unat ?k"
      using enough by linarith
    have "in_block_range i ?c (len * ?k)" using range True by blast
    then have "RegisterConstSizeSerializables i st rData len l =
        (case pGetBlock (rData ! ((unat i - unat ?c) div unat ?k))
                (of_nat ((unat i - unat ?c) mod unat ?k)) (rBlockSize st) l of
           (p, bs) \<Rightarrow> Inr (st\<lparr>rBlockSize := bs, rpData := p,
                                rCurrentBlockIndex := ?c + len * ?k\<rparr>))"
      using len k0 inb unfolding d [symmetric] m [symmetric]
      by (simp add: RegisterConstSizeSerializables_def GetNumblock_def rData Let_def)
    then show ?thesis using True by (simp only: if_True split: prod.splits) simp
  qed
qed

lemma unat_add_no_overflow:
  fixes a b :: "64 word"
  assumes "unat a + unat b < 2 ^ 64"
  shows "unat (a + b) = unat a + unat b"
  using assms by (simp add: unat_word_ariths)

lemma unat_of_nat_64:
  assumes "n < 2 ^ 64"
  shows "unat (of_nat n :: 64 word) = n"
  using assms by (simp add: of_nat_inverse)

lemma hit_Var:
  fixes i c :: "64 word"
  shows "i = c \<longleftrightarrow> unat c \<le> unat i \<and> unat i < unat c + 1"
proof -
  have "i = c \<longleftrightarrow> unat i = unat c" by (rule word_unat_eq_iff)
  then show ?thesis by linarith
qed

lemma word_sub_nat:
  fixes i c :: "64 word"
  assumes "unat c \<le> unat i"
  shows "i - c = of_nat (unat i - unat c)"
proof -
  have "c \<le> i" using assms by (simp add: word_le_nat_alt)
  then have "unat (i - c) = unat i - unat c" by (rule unat_sub)
  moreover have "of_nat (unat (i - c)) = i - c" by simp
  ultimately show ?thesis by simp
qed

lemma register_Var_nat:
  "register i l st (Var a sz n) =
     Inr (outcome st (rCurrentBlockIndex st + 1)
            (if unat (rCurrentBlockIndex st) \<le> unat i \<and>
                unat i < unat (rCurrentBlockIndex st) + 1
             then (Ptr a, sz * n)
             else (rpData st, rBlockSize st)))"
  unfolding hit_Var [symmetric]
  by (simp add: RegisterVar_def Let_def outcome_def)

lemma register_Object_nat:
  assumes room: "unat (rCurrentBlockIndex st) + unat (GetNumBlock e) < 2 ^ 63"
  shows "register i l st (Object e) =
     Inr (outcome st (rCurrentBlockIndex st + GetNumBlock e)
            (if unat (rCurrentBlockIndex st) \<le> unat i \<and>
                unat i < unat (rCurrentBlockIndex st) + unat (GetNumBlock e)
             then pGetBlock e (of_nat (unat i - unat (rCurrentBlockIndex st))) (rBlockSize st) l
             else (rpData st, rBlockSize st)))"
proof (cases "unat (rCurrentBlockIndex st) \<le> unat i \<and>
                unat i < unat (rCurrentBlockIndex st) + unat (GetNumBlock e)")
  case True
  then have "in_block_range i (rCurrentBlockIndex st) (GetNumBlock e)"
    using in_block_range_nat [OF room, of i] by blast
  moreover have "i - rCurrentBlockIndex st = of_nat (unat i - unat (rCurrentBlockIndex st))"
    using True by (intro word_sub_nat) simp
  ultimately have "register i l st (Object e) =
      Inr (outcome st (rCurrentBlockIndex st + GetNumBlock e)
        (pGetBlock e (of_nat (unat i - unat (rCurrentBlockIndex st))) (rBlockSize st) l))"
    by (simp add: RegisterConstSizeSerializable_def Let_def outcome_def split: prod.splits)
  then show ?thesis using True by (simp only: simp_thms if_True)
next
  case False
  then have "\<not> in_block_range i (rCurrentBlockIndex st) (GetNumBlock e)"
    using in_block_range_nat [OF room, of i] by blast
  then have "register i l st (Object e) =
      Inr (outcome st (rCurrentBlockIndex st + GetNumBlock e) (rpData st, rBlockSize st))"
    by (simp add: RegisterConstSizeSerializable_def Let_def outcome_def)
  then show ?thesis using False by (simp only: simp_thms if_False)
qed

lemma register_Objects_nat:
  assumes fits: "unat len \<le> length es"
    and room: "unat (rCurrentBlockIndex st) + member_count (Objects es len) < 2 ^ 63"
  shows "register i l st (Objects es len) =
     Inr (outcome st (rCurrentBlockIndex st + of_nat (member_count (Objects es len)))
            (if unat (rCurrentBlockIndex st) \<le> unat i \<and>
                unat i < unat (rCurrentBlockIndex st) + member_count (Objects es len)
             then member_block (Objects es len) (unat i - unat (rCurrentBlockIndex st))
                    (rBlockSize st) l
             else (rpData st, rBlockSize st)))"
proof (cases "0 < len")
  case False
  then have z: "len = 0" using word_neq_0_conv [of len] by blast
  have c: "member_count (Objects es 0) = 0" by (simp split: list.splits)
  have n: "(unat (rCurrentBlockIndex st) \<le> unat i \<and>
            unat i < unat (rCurrentBlockIndex st) + 0) = False" by auto
  show ?thesis
    unfolding z c n by (simp add: RegisterConstSizeSerializables_empty outcome_def)
next
  case True
  then have "0 < unat len" using word_neq_0_conv [of len] by (simp add: unat_gt_0)
  with fits obtain first rest where es: "es = first # rest"
    by (cases es) simp_all
  have c: "member_count (Objects es len) = unat len * unat (GetNumBlock first)"
    by (simp add: es)
  have w: "of_nat (unat len * unat (GetNumBlock first)) = len * GetNumBlock first"
    by (rule word_arith_nat_mult [symmetric])
  have b: "member_block (Objects es len) j bs l =
      pGetBlock (es ! (j div unat (GetNumBlock first)))
        (of_nat (j mod unat (GetNumBlock first))) bs l" for j bs
    by (simp add: es)
  have "unat (rCurrentBlockIndex st) + unat len * unat (GetNumBlock first) < 2 ^ 63"
    using room unfolding c .
  note RegisterConstSizeSerializables_nat [OF True es fits this, of i l]
  then show ?thesis
    unfolding c w b by (simp add: outcome_def split: prod.splits)
qed

lemma register_nat:
  assumes fits: "array_fits m"
    and room: "unat (rCurrentBlockIndex st) + member_count m < 2 ^ 63"
  shows "register i l st m =
     Inr (outcome st (rCurrentBlockIndex st + of_nat (member_count m))
            (if unat (rCurrentBlockIndex st) \<le> unat i \<and>
                unat i < unat (rCurrentBlockIndex st) + member_count m
             then member_block m (unat i - unat (rCurrentBlockIndex st)) (rBlockSize st) l
             else (rpData st, rBlockSize st)))"
proof (cases m)
  case (Var a sz n)
  show ?thesis unfolding Var by (simp add: register_Var_nat del: register.simps)
next
  case (Object e)
  have "unat (rCurrentBlockIndex st) + unat (GetNumBlock e) < 2 ^ 63"
    using room by (simp add: Object)
  from register_Object_nat [OF this, of i l] show ?thesis
    unfolding Object by (simp del: register.simps)
next
  case (Objects es len)
  have "unat len \<le> length es" using fits by (simp add: Objects)
  from register_Objects_nat [OF this room [unfolded Objects], of i l] show ?thesis
    unfolding Objects .
qed

lemma outcome_same: "outcome st (rCurrentBlockIndex st) (rpData st, rBlockSize st) = st"
  by (cases st) (simp add: outcome_def)

lemma outcome_outcome: "outcome (outcome st a r) b r' = outcome st b r'"
  by (simp add: outcome_def)

lemma outcome_sel:
  "rCurrentBlockIndex (outcome st a r) = a"
  "rpData (outcome st a r) = fst r"
  "rBlockSize (outcome st a r) = snd r"
  by (simp_all add: outcome_def)

lemma register_all_nat:
  assumes "\<forall>m \<in> set ms. array_fits m"
    and "unat (rCurrentBlockIndex st) + blocks_total ms < 2 ^ 63"
  shows "register_all i l st ms =
     Inr (outcome st (rCurrentBlockIndex st + of_nat (blocks_total ms))
            (if unat (rCurrentBlockIndex st) \<le> unat i
             then flat_block ms (unat i - unat (rCurrentBlockIndex st))
                    (rpData st, rBlockSize st) l
             else (rpData st, rBlockSize st)))"
  using assms
proof (induction ms arbitrary: st)
  case Nil
  then show ?case by (simp add: blocks_total_def outcome_same)
next
  case (Cons m ms)
  let ?c = "rCurrentBlockIndex st"
  let ?n = "member_count m"
  let ?r = "if unat ?c \<le> unat i \<and> unat i < unat ?c + ?n
            then member_block m (unat i - unat ?c) (rBlockSize st) l
            else (rpData st, rBlockSize st)"
  let ?st1 = "outcome st (?c + of_nat ?n) ?r"
  have tot: "blocks_total (m # ms) = ?n + blocks_total ms"
    by (simp add: blocks_total_def)
  have fits: "array_fits m" and fits': "\<forall>m \<in> set ms. array_fits m"
    using Cons.prems(1) by simp_all
  have room: "unat ?c + ?n < 2 ^ 63"
    using Cons.prems(2) unfolding tot by linarith
  have step: "register i l st m = Inr ?st1"
    by (rule register_nat [OF fits room])
  have "unat (of_nat ?n :: 64 word) = ?n"
    using room by (intro unat_of_nat_64) simp
  then have c1: "unat (?c + of_nat ?n) = unat ?c + ?n"
    using room by (simp add: unat_add_no_overflow)
  have room': "unat (rCurrentBlockIndex ?st1) + blocks_total ms < 2 ^ 63"
    using Cons.prems(2) unfolding tot outcome_sel c1 by linarith
  have rest: "register_all i l ?st1 ms =
      Inr (outcome st (?c + of_nat ?n + of_nat (blocks_total ms))
            (if unat ?c + ?n \<le> unat i
             then flat_block ms (unat i - (unat ?c + ?n)) (fst ?r, snd ?r) l
             else (fst ?r, snd ?r)))"
    using Cons.IH [OF fits' room'] unfolding outcome_sel outcome_outcome c1 .
  have cur: "?c + of_nat ?n + of_nat (blocks_total ms) = ?c + of_nat (blocks_total (m # ms))"
    unfolding tot by simp
  have res: "(if unat ?c + ?n \<le> unat i
             then flat_block ms (unat i - (unat ?c + ?n)) (fst ?r, snd ?r) l
             else (fst ?r, snd ?r)) =
         (if unat ?c \<le> unat i
          then flat_block (m # ms) (unat i - unat ?c) (rpData st, rBlockSize st) l
          else (rpData st, rBlockSize st))"
  proof (cases "unat ?c \<le> unat i")
    case False
    then show ?thesis by simp
  next
    case le: True
    show ?thesis
    proof (cases "unat i < unat ?c + ?n")
      case True
      then have "unat i - unat ?c < ?n" using le by linarith
      then show ?thesis using le True by simp
    next
      case False
      then have "\<not> unat i - unat ?c < ?n" using le by linarith
      moreover have "unat i - unat ?c - ?n = unat i - (unat ?c + ?n)" by simp
      ultimately show ?thesis using le False by simp
    qed
  qed
  show ?case
    unfolding register_all.simps step sum.case rest cur res ..
qed

lemma GetBlock_nat:
  assumes "\<forall>m \<in> set ms. array_fits m"
    and "blocks_total ms < 2 ^ 63"
  shows "GetBlock ms i bs l = Inr (flat_block ms (unat i) (nullptr, bs) l)"
    and "\<exists>st'. register_all i l (fresh_state bs) ms = Inr st' \<and>
           rCurrentBlockIndex st' = of_nat (blocks_total ms)"
proof -
  have "unat (rCurrentBlockIndex (fresh_state bs)) + blocks_total ms < 2 ^ 63"
    using assms(2) by (simp add: fresh_state_def)
  note r = register_all_nat [OF assms(1) this, of i l]
  show "GetBlock ms i bs l = Inr (flat_block ms (unat i) (nullptr, bs) l)"
    unfolding GetBlock_def r by (simp add: outcome_sel) (simp add: fresh_state_def)
  show "\<exists>st'. register_all i l (fresh_state bs) ms = Inr st' \<and>
           rCurrentBlockIndex st' = of_nat (blocks_total ms)"
    unfolding r by (simp add: outcome_sel) (simp add: fresh_state_def)
qed

lemma member_count_Objects_uniform:
  assumes "length C = unat m" and "\<forall>e \<in> set C. GetNumBlock e = k"
  shows "member_count (Objects C m) = unat m * unat k"
  using assms by (cases C) simp_all

lemma member_block_Objects_uniform:
  assumes "C \<noteq> []" and "\<forall>e \<in> set C. GetNumBlock e = k"
  shows "member_block (Objects C m) j bs l =
     pGetBlock (C ! (j div unat k)) (of_nat (j mod unat k)) bs l"
  using assms by (cases C) simp_all

lemma pos_of_product:
  fixes a b j :: nat
  assumes "j < a * b"
  shows "0 < a" and "0 < b"
proof -
  show "0 < a" using assms by (cases a) simp_all
  show "0 < b" using assms by (cases b) simp_all
qed

lemma pGetBlock_recount:
  assumes "n < length (first # rest)"
  shows "pGetBlock ((first # map (\<lambda>e. e\<lparr>GetNumBlock := g e\<rparr>) rest) ! n) =
         pGetBlock ((first # rest) ! n)"
  using assms by (cases n) simp_all

lemma RegisterConstSizeSerializables_recount:
  "RegisterConstSizeSerializables i st (first # map (\<lambda>e. e\<lparr>GetNumBlock := g e\<rparr>) rest) len l =
   RegisterConstSizeSerializables i st (first # rest) len l"
proof -
  have "\<not> length (first # rest) \<le> n \<Longrightarrow>
      pGetBlock ((first # map (\<lambda>e. e\<lparr>GetNumBlock := g e\<rparr>) rest) ! n) =
      pGetBlock ((first # rest) ! n)" for n
    using pGetBlock_recount [of n first rest g] by simp
  then show ?thesis
    unfolding RegisterConstSizeSerializables_def GetNumblock_def list.case Let_def
    by (simp del: nth_Cons_Suc nth_Cons_0 nth_Cons')
qed

section \<open>Enumerating an assembled entity\<close>

lemma enumerable_alt:
  "enumerable isLoad e \<longleftrightarrow>
     unat (GetNumBlock e) < 2 ^ 63 \<and>
     (\<forall>j < unat (GetNumBlock e). \<forall>bs.
        pGetBlock e (of_nat j) bs isLoad = pGetBlock e (of_nat j) 0 isLoad \<and>
        block_ptr isLoad e j \<noteq> nullptr) \<and>
     (\<forall>bs. fst (pGetBlock e (GetNumBlock e) bs isLoad) = nullptr)"
  by (simp add: enumerable_def enumerates_def)

lemma sum_split_nat:
  fixes f :: "nat \<Rightarrow> nat"
  shows "(\<Sum>j < n + t. f j) = (\<Sum>j < n. f j) + (\<Sum>j < t. f (n + j))"
  by (induction t) (simp_all add: add.assoc)

lemma sum_div_mod:
  fixes f :: "nat \<Rightarrow> nat \<Rightarrow> nat"
  shows "(\<Sum>j < q * k. f (j div k) (j mod k)) = (\<Sum>a < q. \<Sum>b < k. f a b)"
proof (induction q)
  case 0
  then show ?case by simp
next
  case (Suc q)
  have "(\<Sum>j < Suc q * k. f (j div k) (j mod k)) =
      (\<Sum>j < q * k. f (j div k) (j mod k)) + (\<Sum>b < k. f ((q * k + b) div k) ((q * k + b) mod k))"
    using sum_split_nat [of "\<lambda>j. f (j div k) (j mod k)" "q * k" k] by (simp add: add.commute)
  moreover have "(\<Sum>b < k. f ((q * k + b) div k) ((q * k + b) mod k)) = (\<Sum>b < k. f q b)"
    by (rule sum.cong) simp_all
  ultimately show ?case using Suc.IH by simp
qed

lemma enumerableD:
  assumes "enumerable l e" and "j < unat (GetNumBlock e)"
  shows "pGetBlock e (of_nat j) bs l = pGetBlock e (of_nat j) 0 l"
    and "fst (pGetBlock e (of_nat j) 0 l) \<noteq> nullptr"
  using assms unfolding enumerable_alt block_ptr_def by blast+

lemma Objects_element:
  assumes ok: "member_ok l (Objects es len)"
    and es: "es = first # rest"
    and j: "j < unat len * unat (GetNumBlock first)"
  shows "size_consistent l (es ! (j div unat (GetNumBlock first)))"
    and "GetNumBlock (es ! (j div unat (GetNumBlock first))) = GetNumBlock first"
    and "j mod unat (GetNumBlock first) < unat (GetNumBlock first)"
proof -
  let ?k = "unat (GetNumBlock first)"
  note pos = pos_of_product [OF j]
  have q: "j div ?k < unat len" using j pos(2) by (simp add: less_mult_imp_div_less)
  have fit: "unat len \<le> length es" using ok by simp
  have "es ! (j div ?k) = take (unat len) es ! (j div ?k)" using q by simp
  moreover have "j div ?k < length (take (unat len) es)" using q fit by simp
  ultimately have mem: "es ! (j div ?k) \<in> set (take (unat len) es)"
    by (metis nth_mem)
  have all: "\<forall>e \<in> set (take (unat len) es).
      size_consistent l e \<and> GetNumBlock e = GetNumBlock (hd es)"
    using ok by simp
  have hd: "hd es = first" by (simp add: es)
  from all mem show "size_consistent l (es ! (j div ?k))" by blast
  from all mem show "GetNumBlock (es ! (j div ?k)) = GetNumBlock first"
    unfolding hd by blast
  show "j mod ?k < ?k" using pos(2) by simp
qed

lemma member_block_ok:
  assumes ok: "member_ok l m" and j: "j < member_count m"
  shows "member_block m j bs l = member_block m j 0 l"
    and "fst (member_block m j 0 l) \<noteq> nullptr"
proof -
  have "member_block m j bs l = member_block m j 0 l \<and> fst (member_block m j 0 l) \<noteq> nullptr"
  proof (cases m)
    case (Var a sz n)
    then show ?thesis by simp
  next
    case (Object e)
    then have en: "enumerable l e" using ok by (simp add: size_consistent_def)
    have lt: "j < unat (GetNumBlock e)" using j by (simp add: Object)
    from enumerableD(1) [OF en lt, of bs] enumerableD(2) [OF en lt] show ?thesis
      unfolding Object member_block.simps by blast
  next
    case (Objects es len)
    show ?thesis
    proof (cases es)
      case Nil
      then show ?thesis using j by (simp add: Objects)
    next
      case (Cons first rest)
      let ?k = "unat (GetNumBlock first)"
      have j': "j < unat len * ?k" using j by (simp add: Objects Cons)
      note el = Objects_element [OF ok [unfolded Objects] Cons j']
      have en: "enumerable l (es ! (j div ?k))" using el(1) by (simp add: size_consistent_def)
      have lt: "j mod ?k < unat (GetNumBlock (es ! (j div ?k)))"
        unfolding el(2) by (rule el(3))
      have mb: "member_block m j b l =
          pGetBlock (es ! (j div ?k)) (of_nat (j mod ?k)) b l" for b
        unfolding Objects member_block.simps Cons list.case ..
      from enumerableD(1) [OF en lt, of bs] enumerableD(2) [OF en lt] show ?thesis unfolding mb by blast
    qed
  qed
  then show "member_block m j bs l = member_block m j 0 l"
    and "fst (member_block m j 0 l) \<noteq> nullptr" by simp_all
qed

lemma flat_block_past_end:
  "blocks_total ms \<le> j \<Longrightarrow> flat_block ms j d l = d"
  by (induction ms arbitrary: j) (simp_all add: blocks_total_def)

lemma flat_block_in_range:
  assumes "\<forall>m \<in> set ms. member_ok l m" and "j < blocks_total ms"
  shows "flat_block ms j d l = flat_block ms j (nullptr, 0) l \<and>
         fst (flat_block ms j (nullptr, 0) l) \<noteq> nullptr"
  using assms
proof (induction ms arbitrary: j)
  case Nil
  then show ?case by (simp add: blocks_total_def)
next
  case (Cons m ms)
  show ?case
  proof (cases "j < member_count m")
    case True
    have ok: "member_ok l m" using Cons.prems(1) by simp
    from member_block_ok [OF ok True] True show ?thesis by simp
  next
    case False
    then have "j - member_count m < blocks_total ms"
      using Cons.prems(2) by (simp add: blocks_total_def)
    moreover have "\<forall>m \<in> set ms. member_ok l m" using Cons.prems(1) by simp
    ultimately show ?thesis using Cons.IH False by simp
  qed
qed

lemma size_consistentD:
  assumes "size_consistent l e"
  shows "(\<Sum>j < unat (GetNumBlock e). unat (snd (pGetBlock e (of_nat j) 0 l))) =
         unat (GetSerializableSize e)"
  using assms unfolding size_consistent_def block_size_def by simp

lemma sum_list_nth_take:
  fixes f :: "'a \<Rightarrow> nat"
  assumes "n \<le> length xs"
  shows "sum_list (map f (take n xs)) = (\<Sum>a < n. f (xs ! a))"
proof -
  have "sum_list (map f (take n xs)) = (\<Sum>a < length (take n xs). f (take n xs ! a))"
    by (simp add: sum_list_sum_nth atLeast0LessThan)
  also have "\<dots> = (\<Sum>a < n. f (take n xs ! a))" using assms by simp
  also have "\<dots> = (\<Sum>a < n. f (xs ! a))" by (rule sum.cong) simp_all
  finally show ?thesis .
qed

lemma member_bytes_sum:
  assumes ok: "member_ok l m"
  shows "(\<Sum>j < member_count m. unat (snd (member_block m j 0 l))) = member_bytes m"
proof (cases m)
  case (Var a sz n)
  then show ?thesis by simp
next
  case (Object e)
  then have "size_consistent l e" using ok by simp
  from size_consistentD [OF this] show ?thesis by (simp add: Object)
next
  case (Objects es len)
  show ?thesis
  proof (cases es)
    case Nil
    then show ?thesis by (simp add: Objects)
  next
    case (Cons first rest)
    let ?k = "unat (GetNumBlock first)"
    let ?f = "\<lambda>a b. unat (snd (pGetBlock (es ! a) (of_nat b) 0 l))"
    have fit: "unat len \<le> length es" using ok by (simp add: Objects)
    have all: "\<forall>e \<in> set (take (unat len) es).
        size_consistent l e \<and> GetNumBlock e = GetNumBlock (hd es)"
      using ok by (simp add: Objects)
    have hd: "hd es = first" by (simp add: Cons)
    have cnt: "member_count m = unat len * ?k"
      unfolding Objects member_count.simps Cons list.case ..
    have mb: "unat (snd (member_block m j 0 l)) = ?f (j div ?k) (j mod ?k)" for j
      unfolding Objects member_block.simps Cons list.case ..
    have inner: "(\<Sum>b < ?k. ?f a b) = unat (GetSerializableSize (es ! a))" if a: "a < unat len" for a
    proof -
      have "es ! a = take (unat len) es ! a" using a by simp
      moreover have "a < length (take (unat len) es)" using a fit by simp
      ultimately have mem: "es ! a \<in> set (take (unat len) es)" by (metis nth_mem)
      from all mem have sc: "size_consistent l (es ! a)" by blast
      from all mem have k: "GetNumBlock (es ! a) = GetNumBlock first" unfolding hd by blast
      from size_consistentD [OF sc] show ?thesis unfolding k .
    qed
    have "(\<Sum>j < member_count m. unat (snd (member_block m j 0 l))) =
        (\<Sum>j < unat len * ?k. ?f (j div ?k) (j mod ?k))"
      unfolding cnt mb ..
    also have "\<dots> = (\<Sum>a < unat len. \<Sum>b < ?k. ?f a b)"
      by (rule sum_div_mod)
    also have "\<dots> = (\<Sum>a < unat len. unat (GetSerializableSize (es ! a)))"
      by (rule sum.cong) (simp_all add: inner)
    also have "\<dots> = member_bytes m"
      unfolding Objects member_bytes.simps
      by (rule sum_list_nth_take [OF fit, symmetric])
    finally show ?thesis .
  qed
qed

lemma flat_bytes_sum:
  assumes "\<forall>m \<in> set ms. member_ok l m"
  shows "(\<Sum>j < blocks_total ms. unat (snd (flat_block ms j (nullptr, 0) l))) = bytes_total ms"
  using assms
proof (induction ms)
  case Nil
  then show ?case by (simp add: blocks_total_def bytes_total_def)
next
  case (Cons m ms)
  let ?g = "\<lambda>j. unat (snd (flat_block (m # ms) j (nullptr, 0) l))"
  have ok: "member_ok l m" and oks: "\<forall>m \<in> set ms. member_ok l m"
    using Cons.prems by simp_all
  have "(\<Sum>j < blocks_total (m # ms). ?g j) =
      (\<Sum>j < member_count m. ?g j) + (\<Sum>j < blocks_total ms. ?g (member_count m + j))"
    using sum_split_nat [of ?g "member_count m" "blocks_total ms"]
    by (simp add: blocks_total_def)
  moreover have "(\<Sum>j < member_count m. ?g j) =
      (\<Sum>j < member_count m. unat (snd (member_block m j 0 l)))"
    by (rule sum.cong) simp_all
  moreover have "(\<Sum>j < blocks_total ms. ?g (member_count m + j)) =
      (\<Sum>j < blocks_total ms. unat (snd (flat_block ms j (nullptr, 0) l)))"
    by (rule sum.cong) simp_all
  ultimately show ?case
    using member_bytes_sum [OF ok] Cons.IH [OF oks] by (simp add: bytes_total_def)
qed

lemma foldl_add_word:
  fixes a :: "64 word"
  shows "foldl (\<lambda>acc m. acc + f m) a ms = a + sum_list (map f ms)"
  by (induction ms arbitrary: a) (simp_all add: add.assoc)

lemma sum_list_nat_bound:
  fixes f :: "'a \<Rightarrow> nat"
  assumes "x \<in> set xs"
  shows "f x \<le> sum_list (map f xs)"
  using assms by (induction xs) auto

lemma unat_sum_list_map:
  fixes f :: "'a \<Rightarrow> 64 word" and g :: "'a \<Rightarrow> nat"
  assumes "\<forall>x \<in> set xs. unat (f x) = g x" and "sum_list (map g xs) < 2 ^ 64"
  shows "unat (sum_list (map f xs)) = sum_list (map g xs)"
proof -
  have e: "map unat (map f xs) = map g xs" using assms(1) by simp
  have "sum_list (map unat (map f xs)) < 2 ^ 64" unfolding e by (rule assms(2))
  from unat_sum_list_no_overflow [OF this] show ?thesis unfolding e .
qed

lemma member_GetNumBlock_count:
  assumes ok: "member_ok l m" and small: "member_count m < 2 ^ 64"
  shows "unat (member_GetNumBlock m) = member_count m"
proof (cases m)
  case (Var a sz n)
  then show ?thesis by simp
next
  case (Object e)
  then show ?thesis by simp
next
  case (Objects es len)
  show ?thesis
  proof (cases es)
    case Nil
    then show ?thesis by (simp add: Objects accumulate_def)
  next
    case (Cons first rest)
    let ?k = "GetNumBlock first"
    have fit: "unat len \<le> length es" using ok by (simp add: Objects)
    have all: "\<forall>e \<in> set (take (unat len) es).
        size_consistent l e \<and> GetNumBlock e = GetNumBlock (hd es)"
      using ok by (simp add: Objects)
    have hd: "hd es = first" by (simp add: Cons)
    have cnt: "member_count m = unat len * unat ?k"
      unfolding Objects member_count.simps Cons list.case ..
    have "map GetNumBlock (take (unat len) es) = map (\<lambda>e. ?k) (take (unat len) es)"
      by (rule map_cong) (use all hd in auto)
    also have "\<dots> = replicate (unat len) ?k"
      using fit by (simp add: map_replicate_const)
    finally have "sum_list (map GetNumBlock (take (unat len) es)) = of_nat (unat len) * ?k"
      by (simp add: sum_list_replicate)
    then have "member_GetNumBlock m = len * ?k"
      by (simp add: Objects accumulate_def foldl_SumNumBlock)
    moreover have "unat (len * ?k) = unat len * unat ?k"
      using small unfolding cnt by (rule unat_mult_no_overflow)
    ultimately show ?thesis unfolding cnt by simp
  qed
qed

lemma member_GetSerializableSize_bytes:
  assumes small: "member_bytes m < 2 ^ 64"
  shows "unat (member_GetSerializableSize m) = member_bytes m"
proof (cases m)
  case (Var a sz n)
  then show ?thesis by simp
next
  case (Object e)
  then show ?thesis by simp
next
  case (Objects es len)
  have "sum_list (map (\<lambda>e. unat (GetSerializableSize e)) (take (unat len) es)) < 2 ^ 64"
    using small by (simp add: Objects)
  from unat_sum_list_map [of "take (unat len) es" GetSerializableSize, OF _ this]
  show ?thesis by (simp add: Objects accumulate_def foldl_SumSerializableSize)
qed

lemma assembled_GetNumBlock:
  assumes "\<forall>m \<in> set ms. member_ok l m" and "blocks_total ms < 2 ^ 64"
  shows "unat (GetNumBlock (assembled ms)) = blocks_total ms"
proof -
  have "unat (member_GetNumBlock m) = member_count m" if m: "m \<in> set ms" for m
  proof -
    have "member_count m \<le> blocks_total ms"
      unfolding blocks_total_def using m by (rule sum_list_nat_bound)
    then have "member_count m < 2 ^ 64" using assms(2) by linarith
    with assms(1) m show ?thesis by (intro member_GetNumBlock_count) auto
  qed
  then have "\<forall>m \<in> set ms. unat (member_GetNumBlock m) = member_count m" by blast
  from unat_sum_list_map [OF this assms(2) [unfolded blocks_total_def]]
  show ?thesis by (simp add: assembled_def accumulate_def foldl_add_word blocks_total_def)
qed

lemma assembled_GetSerializableSize:
  assumes "bytes_total ms < 2 ^ 64"
  shows "unat (GetSerializableSize (assembled ms)) = bytes_total ms"
proof -
  have "unat (member_GetSerializableSize m) = member_bytes m" if m: "m \<in> set ms" for m
  proof -
    have "member_bytes m \<le> bytes_total ms"
      unfolding bytes_total_def using m by (rule sum_list_nat_bound)
    then have "member_bytes m < 2 ^ 64" using assms by linarith
    then show ?thesis by (rule member_GetSerializableSize_bytes)
  qed
  then have "\<forall>m \<in> set ms. unat (member_GetSerializableSize m) = member_bytes m" by blast
  from unat_sum_list_map [OF this assms [unfolded bytes_total_def]]
  show ?thesis by (simp add: assembled_def accumulate_def foldl_add_word bytes_total_def)
qed

lemma members_fit:
  assumes "\<forall>m \<in> set ms. member_ok l m"
  shows "\<forall>m \<in> set ms. array_fits m"
proof
  fix m assume "m \<in> set ms"
  with assms have "member_ok l m" by blast
  then show "array_fits m" by (cases m) simp_all
qed

lemma less_2_nat: "(j::nat) < 2 \<longleftrightarrow> j = 0 \<or> j = 1"
  by auto

lemma sum_less_2:
  fixes f :: "nat \<Rightarrow> nat"
  shows "(\<Sum>j < 2. f j) = f 0 + f 1"
proof -
  have "{..<2::nat} = {0, 1}" by auto
  then show ?thesis by simp
qed

lemma two_scalars_size_consistent: "size_consistent l (two_scalars a b)"
proof -
  have n: "unat (GetNumBlock (two_scalars a b)) = 2" by (simp add: two_scalars_count)
  have s: "unat (GetSerializableSize (two_scalars a b)) = 8" by (simp add: two_scalars_def)
  have "enumerable l (two_scalars a b)"
    unfolding enumerable_alt n less_2_nat block_ptr_def
    by (auto simp: two_scalars_block two_scalars_count)
  moreover have "(\<Sum>j < 2. block_size l (two_scalars a b) j) = 8"
    unfolding sum_less_2 by (simp add: block_size_def two_scalars_block)
  ultimately show ?thesis unfolding size_consistent_def n s by simp
qed

lemma two_scalars_enumerates: "enumerates l (two_scalars a b) 2"
  unfolding enumerates_def less_2_nat block_ptr_def
  by (auto simp: two_scalars_block)

lemma two_scalars_blocks:
  "block_size l (two_scalars a b) 0 = 4" "block_size l (two_scalars a b) 1 = 4"
  "block_addr l (two_scalars a b) 0 = a" "block_addr l (two_scalars a b) 1 = b"
  "block_size l (two_scalars a b) (Suc 0) = 4" "block_addr l (two_scalars a b) (Suc 0) = b"
  by (simp_all add: block_size_def block_addr_def block_ptr_def two_scalars_block)

lemma accumulate_SumNumBlock_uniform:
  assumes "\<forall>e \<in> set es. GetNumBlock e = k"
  shows "accumulate es 0 SumNumBlock = of_nat (length es) * k"
proof -
  have "map GetNumBlock es = map (\<lambda>e. k) es"
    by (rule map_cong) (use assms in auto)
  then have "sum_list (map GetNumBlock es) = of_nat (length es) * k"
    by (simp add: map_replicate_const sum_list_replicate)
  then show ?thesis by (simp add: accumulate_def foldl_SumNumBlock)
qed

lemma assembled_contract:
  assumes ok: "\<forall>m \<in> set ms. member_ok l m"
    and blocks: "blocks_total ms < 2 ^ 63"
    and bytes: "bytes_total ms < 2 ^ 64"
  shows "(\<forall>i bs. GetBlock ms i bs l = Inr (pGetBlock (assembled ms) i bs l)) \<and>
         size_consistent l (assembled ms)"
proof -
  let ?e = "assembled ms"
  note fits = members_fit [OF ok]
  have gb: "GetBlock ms i bs l = Inr (flat_block ms (unat i) (nullptr, bs) l)" for i bs
    by (rule GetBlock_nat(1) [OF fits blocks])
  have pg: "pGetBlock ?e i bs l = flat_block ms (unat i) (nullptr, bs) l" for i bs
    by (simp add: assembled_def gb)
  have "blocks_total ms < 2 ^ 64" using blocks by simp
  note n = assembled_GetNumBlock [OF ok this]
  note s = assembled_GetSerializableSize [OF bytes]
  have u: "unat (of_nat j :: 64 word) = j" if "j < blocks_total ms" for j
    using that blocks by (intro unat_of_nat_64) simp
  have inr: "pGetBlock ?e (of_nat j) bs l = pGetBlock ?e (of_nat j) 0 l \<and>
      block_ptr l ?e j \<noteq> nullptr" if j: "j < blocks_total ms" for j bs
  proof -
    from flat_block_in_range [OF ok j, of "(nullptr, bs)"]
    show ?thesis
      unfolding block_ptr_def pg u [OF j]
      using flat_block_in_range [OF ok j, of "(nullptr, 0)"] by simp
  qed
  have sentinel: "fst (pGetBlock ?e (GetNumBlock ?e) bs l) = nullptr" for bs
    unfolding pg n by (simp add: flat_block_past_end)
  have en: "enumerable l ?e"
    unfolding enumerable_alt n using blocks inr sentinel by blast
  have "(\<Sum>j < blocks_total ms. block_size l ?e j) =
      (\<Sum>j < blocks_total ms. unat (snd (flat_block ms j (nullptr, 0) l)))"
    by (rule sum.cong) (simp_all add: block_size_def pg u)
  then have "unat (GetSerializableSize ?e) = (\<Sum>j < unat (GetNumBlock ?e). block_size l ?e j)"
    unfolding n s using flat_bytes_sum [OF ok] by simp
  with en have "size_consistent l ?e" unfolding size_consistent_def by blast
  moreover have "\<forall>i bs. GetBlock ms i bs l = Inr (pGetBlock ?e i bs l)"
    unfolding pg using gb by blast
  ultimately show ?thesis by blast
qed

section \<open>The scans of Save and Load\<close>

lemma enumerates_block:
  assumes "enumerates l e n" and "j < n"
  shows "pGetBlock e (of_nat j) bs l =
         (Ptr (block_addr l e j), snd (pGetBlock e (of_nat j) 0 l))"
proof -
  from assms
  have a: "pGetBlock e (of_nat j) bs l = pGetBlock e (of_nat j) 0 l"
    and b: "fst (pGetBlock e (of_nat j) 0 l) \<noteq> nullptr"
    unfolding enumerates_def block_ptr_def by blast+
  from b obtain x where x: "fst (pGetBlock e (of_nat j) 0 l) = Ptr x"
    by (cases "fst (pGetBlock e (of_nat j) 0 l)") simp_all
  then have "block_addr l e j = x" by (simp add: block_addr_def block_ptr_def)
  with x have "pGetBlock e (of_nat j) 0 l =
      (Ptr (block_addr l e j), snd (pGetBlock e (of_nat j) 0 l))"
    by (metis prod.collapse)
  with a show ?thesis by simp
qed

lemma enumerates_end:
  assumes "enumerates l e n"
  shows "pGetBlock e (of_nat n) bs l = (nullptr, snd (pGetBlock e (of_nat n) bs l))"
proof -
  have "fst (pGetBlock e (of_nat n) bs l) = nullptr"
    using assms unfolding enumerates_def by blast
  then show ?thesis by (simp add: prod_eq_iff)
qed

lemma save_scan_from:
  assumes en: "enumerates False e n" and le: "i \<le> n"
  shows "save_scan e mem (of_nat i) bs out =
         Some (out @ concat (map (block_bytes False e mem) [i..<n]))"
  using le
proof (induction "n - i" arbitrary: i bs out)
  case 0
  then have i: "i = n" by simp
  show ?case
    unfolding i by (subst save_scan.simps, subst enumerates_end [OF en]) simp
next
  case (Suc d)
  then have lt: "i < n" by linarith
  have d: "d = n - Suc i" using Suc.hyps(2) by linarith
  have le': "Suc i \<le> n" using lt by simp
  have nxt: "(of_nat i :: 64 word) + 1 = of_nat (Suc i)" by simp
  have up: "[i..<n] = i # [Suc i..<n]"
    using lt by (rule upt_conv_Cons)
  show ?case
    apply (subst save_scan.simps)
    apply (subst enumerates_block [OF en lt])
    apply (simp only: prod.case ptr.case nxt Suc.hyps(1) [OF d le'] up)
    apply (simp add: block_bytes_def block_size_def)
    done
qed


lemma length_read_bytes [simp]: "length (read_bytes mem a n) = n"
  by (simp add: read_bytes_def)

lemma nth_read_bytes: "k < n \<Longrightarrow> read_bytes mem a n ! k = mem (a + k)"
  by (simp add: read_bytes_def)

lemma write_read_step:
  assumes al: "mirrors_aliasing e e' n"
    and i: "i < n"
    and inv: "\<forall>j < i. \<forall>off < block_size False e j.
        cur (block_addr True e' j + off) = mem (block_addr False e j + off)"
  shows "\<forall>j < Suc i. \<forall>off < block_size False e j.
        write_bytes cur (block_addr True e' i) (block_bytes False e mem i)
          (block_addr True e' j + off) = mem (block_addr False e j + off)"
proof (intro allI impI)
  fix j off
  assume j: "j < Suc i" and off: "off < block_size False e j"
  let ?x = "block_addr True e' j + off"
  let ?a = "block_addr True e' i"
  let ?s = "block_size False e i"
  have len: "length (block_bytes False e mem i) = ?s" by (simp add: block_bytes_def)
  have jN: "j < n" using j i by linarith
  show "write_bytes cur ?a (block_bytes False e mem i) ?x = mem (block_addr False e j + off)"
  proof (cases "?a \<le> ?x \<and> ?x < ?a + ?s")
    case True
    define ok where "ok = ?x - ?a"
    have ok: "ok < ?s" and eq: "?x = ?a + ok" using True unfolding ok_def by linarith+
    from al jN i off ok eq
    have "block_addr False e j + off = block_addr False e i + ok"
      unfolding mirrors_aliasing_def by blast
    moreover have "write_bytes cur ?a (block_bytes False e mem i) ?x =
        mem (block_addr False e i + ok)"
      using True ok by (simp add: write_bytes_def len block_bytes_def nth_read_bytes ok_def)
    ultimately show ?thesis by simp
  next
    case False
    then have w: "write_bytes cur ?a (block_bytes False e mem i) ?x = cur ?x"
      unfolding write_bytes_def len by (simp only: if_False)
    have "j \<noteq> i" using False off by auto
    then have "j < i" using j by linarith
    with inv off show ?thesis unfolding w by blast
  qed
qed

lemma load_scan_round_trip:
  assumes sh: "same_shape e e' n"
    and al: "mirrors_aliasing e e' n"
    and le: "i \<le> n"
    and inv: "\<forall>j < i. \<forall>off < block_size False e j.
        cur (block_addr True e' j + off) = mem (block_addr False e j + off)"
  shows "\<exists>mem'. load_scan e' (of_nat i) bs
            (concat (map (block_bytes False e mem) [i..<n])) cur =
            Some (Inr mem') \<and>
          (\<forall>j < n. \<forall>off < block_size False e j.
             mem' (block_addr True e' j + off) = mem (block_addr False e j + off))"
  using le inv
proof (induction "n - i" arbitrary: i bs cur)
  case 0
  then have i: "i = n" by simp
  have en': "enumerates True e' n" using sh by (simp add: same_shape_def)
  have "load_scan e' (of_nat n) bs [] cur = Some (Inr cur)"
    by (subst load_scan.simps, subst enumerates_end [OF en']) simp
  then show ?case using "0.prems"(2) unfolding i by simp
next
  case (Suc d)
  then have lt: "i < n" by linarith
  have en': "enumerates True e' n" using sh by (simp add: same_shape_def)
  have d: "d = n - Suc i" using Suc.hyps(2) by linarith
  have le': "Suc i \<le> n" using lt by simp
  have nxt: "(of_nat i :: 64 word) + 1 = of_nat (Suc i)" by simp
  have up: "[i..<n] = i # [Suc i..<n]"
    using lt by (rule upt_conv_Cons)
  let ?s = "unat (snd (pGetBlock e' (of_nat i) 0 True))"
  let ?chunk = "block_bytes False e mem i"
  let ?rest = "concat (map (block_bytes False e mem) [Suc i..<n])"
  have "?s = block_size True e' i" by (simp add: block_size_def)
  also have "\<dots> = block_size False e i" using sh lt by (simp add: same_shape_def)
  finally have s: "?s = length ?chunk" by (simp add: block_bytes_def)
  have tk: "take ?s (?chunk @ ?rest) = ?chunk" and dr: "drop ?s (?chunk @ ?rest) = ?rest"
    and ge: "\<not> length (?chunk @ ?rest) < ?s"
    unfolding s by simp_all
  note inv' = write_read_step [OF al lt Suc.prems(2)]
  from Suc.hyps(1) [OF d le' inv', of "snd (pGetBlock e' (of_nat i) 0 True)"]
  obtain mem' where
    run: "load_scan e' (of_nat (Suc i)) (snd (pGetBlock e' (of_nat i) 0 True)) ?rest
            (write_bytes cur (block_addr True e' i) ?chunk) = Some (Inr mem')"
    and fin: "\<forall>j < n. \<forall>off < block_size False e j.
             mem' (block_addr True e' j + off) = mem (block_addr False e j + off)"
    by blast
  have "load_scan e' (of_nat i) bs (?chunk @ ?rest) cur = Some (Inr mem')"
    apply (subst load_scan.simps)
    apply (subst enumerates_block [OF en' lt])
    apply (simp only: prod.case ptr.case nxt if_False ge tk dr run)
    done
  then show ?case using fin unfolding up by simp
qed



section \<open>RegisterVar\<close>

text \<open>
  C4: every call of \<open>RegisterVar\<close>, whatever the datum, the length and the requested
  index, moves the registration cursor forward by exactly 1; when the requested index is
  the cursor on entry, the block size becomes \<open>sizeof(DataType) * length\<close> and the
  address the datum's: the whole array is one block. The sum and the product are those of
  the machine (modulo \<open>2 ^ 64\<close>); they are the sum and the product of the integers when
  the cursor is below the largest index and the product fits a \<open>std::size_t\<close>.
\<close>

theorem RegisterVar_one_block:
  "rCurrentBlockIndex (RegisterVar blockIndex st rData sz len) = rCurrentBlockIndex st + 1 \<and>
   (sint (rCurrentBlockIndex st) < 2 ^ 63 - 1 \<longrightarrow>
      sint (rCurrentBlockIndex (RegisterVar blockIndex st rData sz len)) =
        sint (rCurrentBlockIndex st) + 1) \<and>
   (blockIndex = rCurrentBlockIndex st \<longrightarrow>
      rBlockSize (RegisterVar blockIndex st rData sz len) = sz * len \<and>
      rpData (RegisterVar blockIndex st rData sz len) = Ptr rData \<and>
      (unat len * unat sz < 2 ^ 64 \<longrightarrow>
         unat (rBlockSize (RegisterVar blockIndex st rData sz len)) = unat len * unat sz))"
  using sint_succ_64 [of "rCurrentBlockIndex st"] unat_mult_no_overflow [of sz len]
  by (simp add: RegisterVar_def Let_def mult.commute)

theorem RegisterVar_one_block_witness:
  "rCurrentBlockIndex (RegisterVar 0 (fresh_state 0) 100 8 3) = 1 \<and>
   sint (rCurrentBlockIndex (RegisterVar 0 (fresh_state 0) 100 8 3)) = 1 \<and>
   rBlockSize (RegisterVar 0 (fresh_state 0) 100 8 3) = 24 \<and>
   rpData (RegisterVar 0 (fresh_state 0) 100 8 3) = Ptr 100 \<and>
   unat (rBlockSize (RegisterVar 0 (fresh_state 0) 100 8 3)) = 24"
  using RegisterVar_one_block [of 0 "fresh_state 0" 100 8 3]
  by (simp add: fresh_state_def)

text \<open>
  C10: with \<open>length = 0\<close>, \<open>RegisterVar\<close> still takes one block index: the cursor moves
  by 1, and on a match the block size is 0 and the address is the datum's; whereas
  \<open>RegisterConstSizeSerializables\<close> with \<open>length = 0\<close> leaves cursor, size and
  address as they were.
\<close>

theorem RegisterVar_zero_length:
  "rCurrentBlockIndex (RegisterVar blockIndex st rData sz 0) = rCurrentBlockIndex st + 1 \<and>
   (blockIndex = rCurrentBlockIndex st \<longrightarrow>
      rBlockSize (RegisterVar blockIndex st rData sz 0) = 0 \<and>
      rpData (RegisterVar blockIndex st rData sz 0) = Ptr rData) \<and>
   (\<exists>st'. RegisterConstSizeSerializables blockIndex st es 0 isLoad = Inr st' \<and>
      rCurrentBlockIndex st' = rCurrentBlockIndex st \<and>
      rBlockSize st' = rBlockSize st \<and> rpData st' = rpData st)"
  by (simp add: RegisterVar_def Let_def RegisterConstSizeSerializables_empty)

theorem RegisterVar_zero_length_witness:
  "rCurrentBlockIndex (RegisterVar 5 \<lparr>rBlockSize = 7, rCurrentBlockIndex = 5, rpData = nullptr\<rparr> 100 8 0) = 6 \<and>
   rBlockSize (RegisterVar 5 \<lparr>rBlockSize = 7, rCurrentBlockIndex = 5, rpData = nullptr\<rparr> 100 8 0) = 0 \<and>
   rpData (RegisterVar 5 \<lparr>rBlockSize = 7, rCurrentBlockIndex = 5, rpData = nullptr\<rparr> 100 8 0) = Ptr 100"
  using RegisterVar_zero_length
          [of 5 "\<lparr>rBlockSize = 7, rCurrentBlockIndex = 5, rpData = nullptr\<rparr>" 100 8 "[]" False]
  by simp

section \<open>RegisterConstSizeSerializable\<close>

text \<open>
  C5: \<open>RegisterConstSizeSerializable\<close> with the nested entity \<open>E\<close> and any requested
  index \<open>i\<close> always moves the cursor forward by \<open>GetNumBlock E\<close>; when the range test
  of the source succeeds it hands the call to \<open>pGetBlock E\<close> with the local index
  \<open>i - cursor\<close>, the incoming block size and the same \<open>isLoad\<close>, and stores the
  pointer and the size it gets back; when the test fails, address and size stay as they
  were. When cursor plus count stays below \<open>2 ^ 63\<close>, the test of the source is the
  half-open range \<open>cursor \<le> i < cursor + GetNumBlock E\<close> of the integers.
\<close>

theorem RegisterConstSizeSerializable_delegates:
  "rCurrentBlockIndex (RegisterConstSizeSerializable i st E isLoad) =
     rCurrentBlockIndex st + GetNumBlock E \<and>
   (in_block_range i (rCurrentBlockIndex st) (GetNumBlock E) \<longrightarrow>
      (rpData (RegisterConstSizeSerializable i st E isLoad),
       rBlockSize (RegisterConstSizeSerializable i st E isLoad)) =
        pGetBlock E (i - rCurrentBlockIndex st) (rBlockSize st) isLoad) \<and>
   (\<not> in_block_range i (rCurrentBlockIndex st) (GetNumBlock E) \<longrightarrow>
      rpData (RegisterConstSizeSerializable i st E isLoad) = rpData st \<and>
      rBlockSize (RegisterConstSizeSerializable i st E isLoad) = rBlockSize st) \<and>
   (unat (rCurrentBlockIndex st) + unat (GetNumBlock E) < 2 ^ 63 \<longrightarrow>
      (in_block_range i (rCurrentBlockIndex st) (GetNumBlock E) \<longleftrightarrow>
         unat (rCurrentBlockIndex st) \<le> unat i \<and>
         unat i < unat (rCurrentBlockIndex st) + unat (GetNumBlock E)) \<and>
      unat (rCurrentBlockIndex (RegisterConstSizeSerializable i st E isLoad)) =
         unat (rCurrentBlockIndex st) + unat (GetNumBlock E))"
proof -
  have adv: "rCurrentBlockIndex (RegisterConstSizeSerializable i st E isLoad) =
      rCurrentBlockIndex st + GetNumBlock E"
    by (simp add: RegisterConstSizeSerializable_def Let_def split: prod.splits)
  have hit: "in_block_range i (rCurrentBlockIndex st) (GetNumBlock E) \<Longrightarrow>
      (rpData (RegisterConstSizeSerializable i st E isLoad),
       rBlockSize (RegisterConstSizeSerializable i st E isLoad)) =
        pGetBlock E (i - rCurrentBlockIndex st) (rBlockSize st) isLoad"
    by (simp add: RegisterConstSizeSerializable_def Let_def split: prod.splits)
  have miss: "\<not> in_block_range i (rCurrentBlockIndex st) (GetNumBlock E) \<Longrightarrow>
      rpData (RegisterConstSizeSerializable i st E isLoad) = rpData st \<and>
      rBlockSize (RegisterConstSizeSerializable i st E isLoad) = rBlockSize st"
    by (simp add: RegisterConstSizeSerializable_def Let_def)
  have nat: "unat (rCurrentBlockIndex st) + unat (GetNumBlock E) < 2 ^ 63 \<Longrightarrow>
      (in_block_range i (rCurrentBlockIndex st) (GetNumBlock E) \<longleftrightarrow>
         unat (rCurrentBlockIndex st) \<le> unat i \<and>
         unat i < unat (rCurrentBlockIndex st) + unat (GetNumBlock E)) \<and>
      unat (rCurrentBlockIndex (RegisterConstSizeSerializable i st E isLoad)) =
         unat (rCurrentBlockIndex st) + unat (GetNumBlock E)"
    unfolding adv using in_block_range_nat [of "rCurrentBlockIndex st" "GetNumBlock E" i]
    by (simp add: unat_word_ariths)
  from adv hit miss nat show ?thesis by blast
qed

theorem RegisterConstSizeSerializable_delegates_witness:
  "rCurrentBlockIndex (RegisterConstSizeSerializable 2
       \<lparr>rBlockSize = 8, rCurrentBlockIndex = 1, rpData = nullptr\<rparr> (two_scalars 108 112) False) = 3 \<and>
   rpData (RegisterConstSizeSerializable 2
       \<lparr>rBlockSize = 8, rCurrentBlockIndex = 1, rpData = nullptr\<rparr> (two_scalars 108 112) False) = Ptr 112 \<and>
   rBlockSize (RegisterConstSizeSerializable 2
       \<lparr>rBlockSize = 8, rCurrentBlockIndex = 1, rpData = nullptr\<rparr> (two_scalars 108 112) False) = 4 \<and>
   rpData (RegisterConstSizeSerializable 0
       \<lparr>rBlockSize = 8, rCurrentBlockIndex = 1, rpData = Ptr 100\<rparr> (two_scalars 108 112) False) = Ptr 100 \<and>
   rBlockSize (RegisterConstSizeSerializable 0
       \<lparr>rBlockSize = 8, rCurrentBlockIndex = 1, rpData = Ptr 100\<rparr> (two_scalars 108 112) False) = 8"
proof -
  have n: "GetNumBlock (two_scalars 108 112) = 2" by (simp add: two_scalars_def)
  have h: "in_block_range 2 1 (2 :: size_t)" by (simp add: in_block_range_def)
  have m: "\<not> in_block_range 0 1 (2 :: size_t)" by (simp add: in_block_range_def)
  show ?thesis
    using RegisterConstSizeSerializable_delegates
            [of 2 "\<lparr>rBlockSize = 8, rCurrentBlockIndex = 1, rpData = nullptr\<rparr>"
                "two_scalars 108 112" False]
          RegisterConstSizeSerializable_delegates
            [of 0 "\<lparr>rBlockSize = 8, rCurrentBlockIndex = 1, rpData = Ptr 100\<rparr>"
                "two_scalars 108 112" False]
          h m
    by (simp add: n two_scalars_block)
qed

section \<open>RegisterConstSizeSerializables\<close>

text \<open>
  C6: \<open>RegisterConstSizeSerializables\<close> with \<open>length = 0\<close> returns the state it was
  given: cursor, block size and address are unchanged for every requested index. A body
  with such a call therefore runs exactly as the body without it: the same final cursor
  (the number of blocks the body registers) and the same block for every index; and the
  entity assembled with the empty array member has the \<open>GetNumBlock\<close> of the entity
  assembled without it.
\<close>

theorem empty_array_registers_nothing:
  "RegisterConstSizeSerializables blockIndex st rData 0 isLoad = Inr st \<and>
   register_all blockIndex isLoad st0 (ms1 @ Objects rData 0 # ms2) =
     register_all blockIndex isLoad st0 (ms1 @ ms2) \<and>
   GetBlock (ms1 @ Objects rData 0 # ms2) blockIndex bs isLoad =
     GetBlock (ms1 @ ms2) blockIndex bs isLoad \<and>
   GetNumBlock (assembled (ms1 @ Objects rData 0 # ms2)) = GetNumBlock (assembled (ms1 @ ms2))"
  by (simp add: register_all_append RegisterConstSizeSerializables_empty GetBlock_def
      assembled_def accumulate_def foldl_add_word split: sum.splits)

theorem empty_array_registers_nothing_witness:
  "RegisterConstSizeSerializables 1 (fresh_state 0) [] 0 False = Inr (fresh_state 0) \<and>
   GetBlock [Var 100 8 1, Objects [] 0, Object (two_scalars 108 112)] 2 0 False =
     GetBlock [Var 100 8 1, Object (two_scalars 108 112)] 2 0 False \<and>
   GetNumBlock (assembled [Var 100 8 1, Objects [] 0, Object (two_scalars 108 112)]) =
     GetNumBlock (assembled [Var 100 8 1, Object (two_scalars 108 112)])"
  using empty_array_registers_nothing [of 1 "fresh_state 0" "[]" False]
        empty_array_registers_nothing
          [of 2 "fresh_state 0" "[]" False "fresh_state 0" "[Var 100 8 1]"
              "[Object (two_scalars 108 112)]" 0]
  by simp

text \<open>
  C9: with \<open>length > 0\<close>, the range test, the mapping of the requested index to an element
  and a local index, and the cursor advance all use the block count of the first element
  only: the cursor moves by \<open>length * GetNumBlock (rData[0])\<close>, an index in the range goes
  to element \<open>(index - cursor) div k\<close> (below \<open>length\<close>) at local index
  \<open>(index - cursor) mod k\<close> with \<open>k\<close> the first element's count, and the call returns
  the same whatever block counts the other elements report. (Array of at least
  \<open>length\<close> elements, cursor plus \<open>length * k\<close> below \<open>2 ^ 63\<close>.)
\<close>

theorem RegisterConstSizeSerializables_first_count:
  assumes len: "0 < len"
    and rData: "rData = first # rest"
    and enough: "unat len \<le> length rData"
    and room: "unat (rCurrentBlockIndex st) + unat len * unat (GetNumBlock first) < 2 ^ 63"
  shows "RegisterConstSizeSerializables i st rData len l =
     Inr (if unat (rCurrentBlockIndex st) \<le> unat i \<and>
             unat i < unat (rCurrentBlockIndex st) + unat len * unat (GetNumBlock first)
          then (case pGetBlock
                       (rData ! ((unat i - unat (rCurrentBlockIndex st)) div unat (GetNumBlock first)))
                       (of_nat ((unat i - unat (rCurrentBlockIndex st)) mod unat (GetNumBlock first)))
                       (rBlockSize st) l of
                  (p, bs) \<Rightarrow>
                    st\<lparr>rBlockSize := bs, rpData := p,
                       rCurrentBlockIndex := rCurrentBlockIndex st + len * GetNumBlock first\<rparr>)
          else st\<lparr>rCurrentBlockIndex := rCurrentBlockIndex st + len * GetNumBlock first\<rparr>) \<and>
     (unat (rCurrentBlockIndex st) \<le> unat i \<and>
      unat i < unat (rCurrentBlockIndex st) + unat len * unat (GetNumBlock first) \<longrightarrow>
        (unat i - unat (rCurrentBlockIndex st)) div unat (GetNumBlock first) < unat len) \<and>
     RegisterConstSizeSerializables i st
        (first # map (\<lambda>e. e\<lparr>GetNumBlock := g e\<rparr>) rest) len l =
       RegisterConstSizeSerializables i st rData len l"
proof -
  let ?c = "unat (rCurrentBlockIndex st)"
  let ?k = "unat (GetNumBlock first)"
  have idx: "(unat i - ?c) div ?k < unat len"
    if h: "?c \<le> unat i \<and> unat i < ?c + unat len * ?k"
  proof -
    have j: "unat i - ?c < unat len * ?k" using h by linarith
    from pos_of_product(2) [OF j] j show ?thesis by (simp add: less_mult_imp_div_less)
  qed
  from RegisterConstSizeSerializables_nat [OF len rData enough room, of i l] idx
    RegisterConstSizeSerializables_recount [of i st first g rest len l]
  show ?thesis unfolding rData by blast
qed

theorem RegisterConstSizeSerializables_first_count_witness:
  "RegisterConstSizeSerializables 4 \<lparr>rBlockSize = 0, rCurrentBlockIndex = 1, rpData = nullptr\<rparr>
     [two_scalars 0 4, (two_scalars 8 12)\<lparr>GetNumBlock := 7\<rparr>] 2 False =
   Inr \<lparr>rBlockSize = 4, rCurrentBlockIndex = 5, rpData = Ptr 12\<rparr>"
proof -
  let ?st = "\<lparr>rBlockSize = 0, rCurrentBlockIndex = 1, rpData = nullptr\<rparr>"
  let ?rest = "[(two_scalars 8 12)\<lparr>GetNumBlock := 7\<rparr>]"
  have h1: "0 < (2 :: size_t)" by simp
  have h2: "two_scalars 0 4 # ?rest = two_scalars 0 4 # ?rest" ..
  have h3: "unat (2 :: size_t) \<le> length (two_scalars 0 4 # ?rest)" by simp
  have h4: "unat (rCurrentBlockIndex ?st) + unat (2 :: size_t) * unat (GetNumBlock (two_scalars 0 4))
      < 2 ^ 63" by (simp add: two_scalars_count)
  from RegisterConstSizeSerializables_first_count [OF h1 h2 h3 h4, of 4 False GetNumBlock]
  show ?thesis by (simp add: two_scalars_count two_scalars_block)
qed

text \<open>
  C3: a body that registers, in this order, a primitive field \<open>A\<close>, a nested entity
  \<open>B\<close> with \<open>n\<close> blocks and an array \<open>C\<close> of \<open>m\<close> entities with \<open>k\<close> blocks each ends
  with the cursor at \<open>1 + n + m * k\<close>, the number of blocks it registers and the
  \<open>GetNumBlock\<close> of the entity assembled from the three members; and every
  requested index in the range of \<open>C\<close>, from \<open>offset = 1 + n\<close> up to
  \<open>offset + m * k\<close>, gets the block of element \<open>(index - offset) div k\<close> at that
  element's local index \<open>(index - offset) mod k\<close>. (Total below \<open>2 ^ 63\<close>.)
\<close>

theorem cursor_advance_A_B_C:
  assumes B: "GetNumBlock B = n"
    and C: "length C = unat m" "\<forall>e \<in> set C. GetNumBlock e = k"
    and room: "1 + unat n + unat m * unat k < 2 ^ 63"
  shows "(\<exists>st'. register_all i l (fresh_state bs) [Var a sz len, Object B, Objects C m] = Inr st' \<and>
            rCurrentBlockIndex st' = 1 + n + m * k) \<and>
         GetNumBlock (assembled [Var a sz len, Object B, Objects C m]) = 1 + n + m * k \<and>
         (1 + unat n \<le> unat i \<and> unat i < 1 + unat n + unat m * unat k \<longrightarrow>
            (unat i - (1 + unat n)) div unat k < length C \<and>
            GetBlock [Var a sz len, Object B, Objects C m] i bs l =
              Inr (pGetBlock (C ! ((unat i - (1 + unat n)) div unat k))
                     (of_nat ((unat i - (1 + unat n)) mod unat k)) bs l))"
proof -
  let ?ms = "[Var a sz len, Object B, Objects C m]"
  have cnt: "member_count (Objects C m) = unat m * unat k"
    by (rule member_count_Objects_uniform [OF C])
  have tot: "blocks_total ?ms = 1 + unat n + unat m * unat k"
    unfolding blocks_total_def list.map sum_list.Cons sum_list.Nil cnt member_count.simps(1,2) B
    by simp
  have fits: "\<forall>m \<in> set ?ms. array_fits m" using C(1) by simp
  have small: "blocks_total ?ms < 2 ^ 63" using room unfolding tot .
  have w: "(of_nat (1 + unat n + unat m * unat k) :: 64 word) = 1 + n + m * k"
    by simp
  have first: "\<exists>st'. register_all i l (fresh_state bs) ?ms = Inr st' \<and>
            rCurrentBlockIndex st' = 1 + n + m * k"
    using GetBlock_nat(2) [OF fits small, of i l bs] unfolding tot w .
  have "accumulate (take (unat m) C) 0 SumNumBlock = of_nat (length C) * k"
    using accumulate_SumNumBlock_uniform [OF C(2)] C(1) by simp
  then have count: "GetNumBlock (assembled ?ms) = 1 + n + m * k"
    unfolding C(1) by (simp add: assembled_def accumulate_def [of ?ms] B)
  have second: "(unat i - (1 + unat n)) div unat k < length C \<and>
            GetBlock ?ms i bs l =
              Inr (pGetBlock (C ! ((unat i - (1 + unat n)) div unat k))
                     (of_nat ((unat i - (1 + unat n)) mod unat k)) bs l)"
    if h: "1 + unat n \<le> unat i \<and> unat i < 1 + unat n + unat m * unat k"
  proof -
    let ?j = "unat i - (1 + unat n)"
    have j: "?j < unat m * unat k" using h by linarith
    note pos = pos_of_product [OF j]
    have ne: "C \<noteq> []" using C(1) pos(1) by auto
    have idx: "?j div unat k < length C"
      unfolding C(1) using j pos(2) by (simp add: less_mult_imp_div_less)
    have s1: "\<not> unat i < 1" using h by linarith
    have s2: "\<not> unat i - 1 < unat n" using h by linarith
    have s3: "unat i - 1 - unat n = ?j" by simp
    have "flat_block ?ms (unat i) (nullptr, bs) l = member_block (Objects C m) ?j bs l"
      unfolding flat_block.simps member_count.simps(1,2) B cnt
      using s1 s2 j by (simp only: if_False if_True s3 snd_conv)
    then have "GetBlock ?ms i bs l = Inr (member_block (Objects C m) ?j bs l)"
      using GetBlock_nat(1) [OF fits small, of i bs l] by simp
    then show ?thesis
      using idx unfolding member_block_Objects_uniform [OF ne C(2)] by simp
  qed
  from first count second show ?thesis by blast
qed

theorem cursor_advance_A_B_C_witness:
  "(\<exists>st'. register_all 6 False (fresh_state 0)
            [Var 100 8 1, Object (two_scalars 108 112),
             Objects [two_scalars 200 204, two_scalars 208 212, two_scalars 216 220] 3] = Inr st' \<and>
          rCurrentBlockIndex st' = 9) \<and>
   GetNumBlock (assembled [Var 100 8 1, Object (two_scalars 108 112),
             Objects [two_scalars 200 204, two_scalars 208 212, two_scalars 216 220] 3]) = 9 \<and>
   GetBlock [Var 100 8 1, Object (two_scalars 108 112),
             Objects [two_scalars 200 204, two_scalars 208 212, two_scalars 216 220] 3] 6 0 False =
     Inr (Ptr 212, 4)"
proof -
  let ?C = "[two_scalars 200 204, two_scalars 208 212, two_scalars 216 220]"
  have h1: "GetNumBlock (two_scalars 108 112) = 2" by (rule two_scalars_count)
  have h2: "length ?C = unat (3 :: size_t)" by simp
  have h3: "\<forall>e \<in> set ?C. GetNumBlock e = 2" by (simp add: two_scalars_count)
  have h4: "1 + unat (2 :: size_t) + unat (3 :: size_t) * unat (2 :: size_t) < 2 ^ 63" by simp
  from cursor_advance_A_B_C [OF h1 h2 h3 h4, of 6 False 0 100 8 1]
  show ?thesis by (simp add: two_scalars_block)
qed

section \<open>SumNumBlock and SumSerializableSize\<close>

text \<open>
  C7: folding \<open>SumNumBlock\<close> (or \<open>SumSerializableSize\<close>) with \<open>std::accumulate\<close> from 0
  over any finite sequence of entities, empty, of one element or longer, returns the sum
  of their \<open>GetNumBlock\<close> (or \<open>GetSerializableSize\<close>) values; both functors are
  functions of their two arguments and change nothing. The sum is that of
  \<open>std::size_t\<close>, and the sum of the natural numbers when that is below \<open>2 ^ 64\<close>.
\<close>

theorem accumulate_sums:
  "accumulate es 0 SumNumBlock = sum_list (map GetNumBlock es) \<and>
   accumulate es 0 SumSerializableSize = sum_list (map GetSerializableSize es) \<and>
   (sum_list (map (\<lambda>e. unat (GetNumBlock e)) es) < 2 ^ 64 \<longrightarrow>
      unat (accumulate es 0 SumNumBlock) = sum_list (map (\<lambda>e. unat (GetNumBlock e)) es)) \<and>
   (sum_list (map (\<lambda>e. unat (GetSerializableSize e)) es) < 2 ^ 64 \<longrightarrow>
      unat (accumulate es 0 SumSerializableSize) =
        sum_list (map (\<lambda>e. unat (GetSerializableSize e)) es))"
  using unat_sum_list_no_overflow [of "map GetNumBlock es"]
        unat_sum_list_no_overflow [of "map GetSerializableSize es"]
  by (simp add: accumulate_def foldl_SumNumBlock foldl_SumSerializableSize comp_def)

theorem accumulate_sums_witness:
  "accumulate [] 0 SumNumBlock = 0 \<and>
   accumulate [two_scalars 0 4] 0 SumNumBlock = 2 \<and>
   unat (accumulate [two_scalars 0 4, two_scalars 8 12, two_scalars 16 20] 0 SumNumBlock) = 6 \<and>
   unat (accumulate [two_scalars 0 4, two_scalars 8 12, two_scalars 16 20] 0
           SumSerializableSize) = 24"
  using accumulate_sums [of "[]"] accumulate_sums [of "[two_scalars 0 4]"]
        accumulate_sums [of "[two_scalars 0 4, two_scalars 8 12, two_scalars 16 20]"]
  by (simp add: two_scalars_def)

section \<open>Size consistency\<close>

text \<open>
  C2, as amended: the claim holds for every entity assembled from the register methods,
  not for every subclass of \<open>Serializable\<close>. Let the members of the body be
  \<open>RegisterVar\<close> fields, nested entities that are size consistent themselves, and arrays
  of at least \<open>length\<close> size-consistent elements with one common block count, with
  fewer than \<open>2 ^ 63\<close> blocks and fewer than \<open>2 ^ 64\<close> bytes in all. Then the body never
  faults, \<open>GetSerializableSize\<close> of the assembled entity is the sum of the block sizes
  \<open>pGetBlock\<close> reports for the indices below \<open>GetNumBlock\<close>, every one of these indices
  gives a block, and index \<open>GetNumBlock\<close> gives the sentinel.
\<close>

theorem assembled_size_consistent:
  assumes ok: "\<forall>m \<in> set ms. member_ok l m"
    and blocks: "blocks_total ms < 2 ^ 63"
    and bytes: "bytes_total ms < 2 ^ 64"
  shows "(\<forall>i bs. GetBlock ms i bs l = Inr (pGetBlock (assembled ms) i bs l)) \<and>
         unat (GetSerializableSize (assembled ms)) =
           (\<Sum>j < unat (GetNumBlock (assembled ms)). block_size l (assembled ms) j) \<and>
         (\<forall>j < unat (GetNumBlock (assembled ms)). block_ptr l (assembled ms) j \<noteq> nullptr) \<and>
         (\<forall>bs. fst (pGetBlock (assembled ms) (GetNumBlock (assembled ms)) bs l) = nullptr) \<and>
         size_consistent l (assembled ms)"
proof -
  note c = assembled_contract [OF ok blocks bytes]
  then have sc: "size_consistent l (assembled ms)" by blast
  then have en: "enumerable l (assembled ms)" by (simp add: size_consistent_def)
  from en have "\<forall>j < unat (GetNumBlock (assembled ms)). block_ptr l (assembled ms) j \<noteq> nullptr"
    unfolding enumerable_alt by blast
  moreover from en
  have "\<forall>bs. fst (pGetBlock (assembled ms) (GetNumBlock (assembled ms)) bs l) = nullptr"
    unfolding enumerable_alt by blast
  moreover from sc have "unat (GetSerializableSize (assembled ms)) =
      (\<Sum>j < unat (GetNumBlock (assembled ms)). block_size l (assembled ms) j)"
    by (simp add: size_consistent_def)
  ultimately show ?thesis using c by blast
qed


theorem assembled_size_consistent_witness:
  "size_consistent False (assembled [Var 100 8 1, Object (two_scalars 108 112)]) \<and>
   GetBlock [Var 100 8 1, Object (two_scalars 108 112)] 2 0 False =
     Inr (pGetBlock (assembled [Var 100 8 1, Object (two_scalars 108 112)]) 2 0 False) \<and>
   GetNumBlock (assembled [Var 100 8 1, Object (two_scalars 108 112)]) = 3 \<and>
   GetSerializableSize (assembled [Var 100 8 1, Object (two_scalars 108 112)]) = 16 \<and>
   block_size False (assembled [Var 100 8 1, Object (two_scalars 108 112)]) 0 +
     block_size False (assembled [Var 100 8 1, Object (two_scalars 108 112)]) 1 +
     block_size False (assembled [Var 100 8 1, Object (two_scalars 108 112)]) 2 = 16"
proof -
  let ?ms = "[Var 100 8 1, Object (two_scalars 108 112)]"
  have h1: "\<forall>m \<in> set ?ms. member_ok False m" by (simp add: two_scalars_size_consistent)
  have h2: "blocks_total ?ms < 2 ^ 63" by (simp add: blocks_total_def two_scalars_count)
  have h3: "bytes_total ?ms < 2 ^ 64" by (simp add: bytes_total_def two_scalars_def)
  have n: "GetNumBlock (assembled ?ms) = 3"
    by (simp add: assembled_def accumulate_def two_scalars_def)
  have s: "GetSerializableSize (assembled ?ms) = 16"
    by (simp add: assembled_def accumulate_def two_scalars_def)
  have three: "(\<Sum>j < 3. f j) = f 0 + f 1 + f 2" for f :: "nat \<Rightarrow> nat"
  proof -
    have "{..<3::nat} = {0, 1, 2}" by auto
    then show ?thesis by simp
  qed
  from assembled_size_consistent [OF h1 h2 h3]
  show ?thesis unfolding n s by (simp add: three)
qed

text \<open>
  C2 as the spec states it, for every entity, fails: \<open>miscounted\<close> reports three blocks
  and four bytes, its accessor returns the sentinel at index 2 already, and the blocks it
  delivers have eight bytes.
\<close>

theorem miscounted_counterexample:
  "\<not> size_consistent False miscounted \<and>
   GetNumBlock miscounted = 3 \<and>
   pGetBlock miscounted 2 0 False = (nullptr, 0) \<and>
   unat (GetSerializableSize miscounted) = 4 \<and>
   block_size False miscounted 0 + block_size False miscounted 1 + block_size False miscounted 2 = 8"
proof -
  have b: "pGetBlock miscounted i bs l = pGetBlock (two_scalars 0 4) i bs l" for i bs l
    by (simp add: miscounted_def)
  have n: "GetNumBlock miscounted = 3" by (simp add: miscounted_def)
  have "block_ptr False miscounted 2 = nullptr"
    by (simp add: block_ptr_def b two_scalars_block)
  moreover have "(2::nat) < unat (GetNumBlock miscounted)" by (simp add: n)
  ultimately have "\<not> enumerable False miscounted"
    unfolding enumerable_alt by blast
  then have "\<not> size_consistent False miscounted" by (simp add: size_consistent_def)
  then show ?thesis
    by (simp add: n b two_scalars_block block_size_def) (simp add: miscounted_def)
qed

section \<open>Round trip\<close>

text \<open>
  C1: let \<open>e\<close> be a constant-size entity (it enumerates \<open>n\<close> blocks in save mode) and
  \<open>e'\<close> an entity of identical structural configuration (it enumerates \<open>n\<close> blocks of
  the same sizes in load mode, aliased as those of \<open>e\<close> are). Then Save returns: the file
  is the concatenation of the blocks' bytes in ascending index order; Load of that file
  into \<open>e'\<close>, from any memory, returns without error; and afterwards every block of
  \<open>e'\<close> holds exactly the bytes the corresponding block of \<open>e\<close> held when it was saved.
\<close>

theorem Save_Load_round_trip:
  assumes sh: "same_shape e e' n" and al: "mirrors_aliasing e e' n"
  shows "\<exists>file mem'.
           Save e mem = Some file \<and>
           file = concat (map (block_bytes False e mem) [0..<n]) \<and>
           Load e' (Some file) mem0 = Some (Inr mem') \<and>
           (\<forall>j < n. block_bytes True e' mem' j = block_bytes False e mem j)"
proof -
  let ?file = "concat (map (block_bytes False e mem) [0..<n])"
  have en: "enumerates False e n" using sh by (simp add: same_shape_def)
  have save: "Save e mem = Some ?file"
    using save_scan_from [OF en, of 0 mem 0 "[]"] by (simp add: Save_def)
  have "\<forall>j < (0::nat). \<forall>off < block_size False e j.
      mem0 (block_addr True e' j + off) = mem (block_addr False e j + off)" by simp
  from load_scan_round_trip [OF sh al _ this, where bs = 0]
  obtain mem' where
    load: "load_scan e' 0 0 ?file mem0 = Some (Inr mem')"
    and same: "\<forall>j < n. \<forall>off < block_size False e j.
        mem' (block_addr True e' j + off) = mem (block_addr False e j + off)"
    by auto
  have "block_bytes True e' mem' j = block_bytes False e mem j" if j: "j < n" for j
  proof -
    have s: "block_size True e' j = block_size False e j"
      using sh j by (simp add: same_shape_def)
    show ?thesis
      unfolding block_bytes_def s
      by (rule nth_equalityI) (use same j in \<open>simp_all add: nth_read_bytes\<close>)
  qed
  with save load show ?thesis by (simp add: Load_def)
qed

theorem Save_Load_round_trip_witness:
  "\<exists>file mem'.
     Save (two_scalars 0 4) sample_memory = Some file \<and>
     file = [1, 0, 0, 0, 2, 0, 0, 0] \<and>
     Load (two_scalars 100 104) (Some file) zero_memory = Some (Inr mem') \<and>
     read_bytes mem' 100 4 = [1, 0, 0, 0] \<and> read_bytes mem' 104 4 = [2, 0, 0, 0]"
proof -
  have h1: "same_shape (two_scalars 0 4) (two_scalars 100 104) 2"
    unfolding same_shape_def less_2_nat
    by (auto simp: two_scalars_enumerates two_scalars_blocks)
  have h2: "mirrors_aliasing (two_scalars 0 4) (two_scalars 100 104) 2"
    unfolding mirrors_aliasing_def less_2_nat
    by (auto simp: two_scalars_blocks)
  have u: "[0..<2] = [0, 1]" by (simp add: upt_rec)
  have b0: "read_bytes sample_memory 0 4 = [1, 0, 0, 0]"
    by (simp add: read_bytes_def sample_memory_def write_bytes_def upt_rec)
  have b1: "read_bytes sample_memory 4 4 = [2, 0, 0, 0]"
    by (simp add: read_bytes_def sample_memory_def write_bytes_def upt_rec)
  from Save_Load_round_trip [OF h1 h2, of sample_memory zero_memory]
  show ?thesis
    unfolding u less_2_nat
    by (auto simp: b0 b1 block_bytes_def two_scalars_blocks)
qed

section \<open>Load failures\<close>



end
